theory Spec2Isabelle
  imports Main
begin

section \<open>Text, characters and the string methods of the source\<close>

text \<open>
  A Python \<open>str\<close> is modelled as a \<open>string\<close>. The model is exact for ASCII text;
  the few non-ASCII characters of the source's own literals are carried as their UTF-8
  bytes. A character with code 128 or more belongs to none of the classes below.
\<close>

definition code :: "char \<Rightarrow> nat" where
  "code c = of_char c"

definition is_digit :: "char \<Rightarrow> bool" where
  "is_digit c = (48 \<le> code c \<and> code c \<le> 57)"

definition is_upper :: "char \<Rightarrow> bool" where
  "is_upper c = (65 \<le> code c \<and> code c \<le> 90)"

definition is_lower :: "char \<Rightarrow> bool" where
  "is_lower c = (97 \<le> code c \<and> code c \<le> 122)"

definition is_alpha :: "char \<Rightarrow> bool" where
  "is_alpha c = (is_upper c \<or> is_lower c)"

text \<open>\<open>str.isspace\<close> on ASCII: tab, line feed, vertical tab, form feed, carriage return,
  the four separators 28 to 31, and the space. The class \<open>\s\<close> of \<open>re\<close> is the same set.\<close>

definition is_space :: "char \<Rightarrow> bool" where
  "is_space c = ((9 \<le> code c \<and> code c \<le> 13) \<or> (28 \<le> code c \<and> code c \<le> 32))"

text \<open>The class \<open>\w\<close>: letters, digits and the underscore.\<close>

definition is_word :: "char \<Rightarrow> bool" where
  "is_word c = (is_alpha c \<or> is_digit c \<or> c = CHR ''_'')"

definition is_alpha_or_space :: "char \<Rightarrow> bool" where
  "is_alpha_or_space c = (is_alpha c \<or> is_space c)"

text \<open>The dot of \<open>re\<close> without \<open>DOTALL\<close>: any character but the line feed.\<close>

definition not_newline :: "char \<Rightarrow> bool" where
  "not_newline c = (c \<noteq> CHR 0x0A)"

definition lower_char :: "char \<Rightarrow> char" where
  "lower_char c = (if is_upper c then char_of (code c + 32) else c)"

definition upper_char :: "char \<Rightarrow> char" where
  "upper_char c = (if is_lower c then char_of (code c - 32) else c)"

definition lower :: "string \<Rightarrow> string" where
  "lower s = map lower_char s"

text \<open>\<open>s.strip()\<close>: white space removed at both ends.\<close>

definition strip :: "string \<Rightarrow> string" where
  "strip s = rev (dropWhile is_space (rev (dropWhile is_space s)))"

text \<open>\<open>s.split(sep)\<close> for a one-character separator: every occurrence splits, empty
  fields are kept, and the result is never empty.\<close>

fun split_on :: "char \<Rightarrow> string \<Rightarrow> string list" where
  "split_on sep [] = [Nil]"
| "split_on sep (c # cs) =
     (if c = sep then [] # split_on sep cs
      else (case split_on sep cs of
              [] \<Rightarrow> [c # Nil]
            | w # ws \<Rightarrow> (c # w) # ws))"

text \<open>\<open>s.split()\<close>: the maximal runs of non-space characters.\<close>

fun split_ws_acc :: "string \<Rightarrow> string \<Rightarrow> string list" where
  "split_ws_acc w [] = (if w = [] then [] else [rev w])"
| "split_ws_acc w (c # cs) =
     (if is_space c then (if w = [] then [] else [rev w]) @ split_ws_acc [] cs
      else split_ws_acc (c # w) cs)"

definition split_ws :: "string \<Rightarrow> string list" where
  "split_ws s = split_ws_acc [] s"

text \<open>\<open>a in b\<close> on strings: \<open>a\<close> occurs in \<open>b\<close> as a contiguous block.\<close>

fun is_prefix :: "string \<Rightarrow> string \<Rightarrow> bool" where
  "is_prefix [] ys = True"
| "is_prefix (x # xs) [] = False"
| "is_prefix (x # xs) (y # ys) = (x = y \<and> is_prefix xs ys)"

fun py_in :: "string \<Rightarrow> string \<Rightarrow> bool" where
  "py_in a [] = (a = [])"
| "py_in a (c # cs) = (is_prefix a (c # cs) \<or> py_in a cs)"

text \<open>\<open>str(n)\<close> for an integer, as an f-string prints it.\<close>

definition digit_char :: "nat \<Rightarrow> char" where
  "digit_char n = char_of (48 + n)"

function str_nat :: "nat \<Rightarrow> string" where
  "str_nat n = (if n < 10 then [digit_char n] else str_nat (n div 10) @ [digit_char (n mod 10)])"
  by pat_completeness auto
termination
  by (relation "measure id") auto

declare str_nat.simps [simp del]


section \<open>The regular expressions of the source\<close>

text \<open>
  The patterns of the source are run by a backtracking matcher with the priorities of
  Python's \<open>re\<close>: the alternatives of \<open>|\<close> from left to right, a greedy repetition
  longest first. A matcher state is the character before the position (for \<open>\b\<close> and
  \<open>^\<close>), the text still to read and the groups captured so far; matching one pattern
  from a state gives the states it can end in, in the order in which \<open>re\<close> tries them.
\<close>

datatype regex =
    Lit char
  | Cls "char \<Rightarrow> bool"
  | Eps
  | Seq regex regex
  | Alt regex regex
  | Rep nat "nat option" regex
  | Grp nat regex
  | WordB
  | Bol
  | Eol

datatype mstate = MState (before: "char option") (rest: string) (groups: "(nat \<times> string) list")

text \<open>A literal under \<open>IGNORECASE\<close> matches both cases; so does a class.\<close>

definition lit_ok :: "bool \<Rightarrow> char \<Rightarrow> char \<Rightarrow> bool" where
  "lit_ok ic c x = (x = c \<or> (ic \<and> lower_char x = lower_char c))"

definition cls_ok :: "bool \<Rightarrow> (char \<Rightarrow> bool) \<Rightarrow> char \<Rightarrow> bool" where
  "cls_ok ic p x = (p x \<or> (ic \<and> (p (lower_char x) \<or> p (upper_char x))))"

definition step_char :: "(char \<Rightarrow> bool) \<Rightarrow> mstate \<Rightarrow> mstate list" where
  "step_char ok st =
     (case rest st of
        [] \<Rightarrow> []
      | x # xs \<Rightarrow> (if ok x then [MState (Some x) xs (groups st)] else []))"

definition word_before :: "mstate \<Rightarrow> bool" where
  "word_before st = (case before st of None \<Rightarrow> False | Some c \<Rightarrow> is_word c)"

definition word_after :: "mstate \<Rightarrow> bool" where
  "word_after st = (case rest st of [] \<Rightarrow> False | c # _ \<Rightarrow> is_word c)"

definition consumed :: "mstate \<Rightarrow> mstate \<Rightarrow> string" where
  "consumed st st' = take (length (rest st) - length (rest st')) (rest st)"

definition set_group :: "nat \<Rightarrow> mstate \<Rightarrow> mstate \<Rightarrow> mstate" where
  "set_group i st st' =
     MState (before st') (rest st') ((i, consumed st st') # groups st')"

definition progress :: "mstate \<Rightarrow> mstate list \<Rightarrow> mstate list" where
  "progress st sts = filter (\<lambda>st'. length (rest st') < length (rest st)) sts"

definition dec :: "nat option \<Rightarrow> nat option" where
  "dec hi = (case hi of None \<Rightarrow> None | Some h \<Rightarrow> Some (h - 1))"

text \<open>
  Greedy repetition \<open>{lo,hi}\<close> (\<open>hi = None\<close> for no bound): one more round first, then
  stopping here when \<open>lo\<close> rounds are done. Every round must read at least one
  character, so the length of the text bounds the rounds: \<open>n\<close> is that bound.
\<close>

fun rep_greedy :: "(mstate \<Rightarrow> mstate list) \<Rightarrow> nat \<Rightarrow> nat option \<Rightarrow> nat \<Rightarrow> mstate \<Rightarrow> mstate list" where
  "rep_greedy f lo hi 0 st = (if lo = 0 then [st] else [])"
| "rep_greedy f lo hi (Suc n) st =
     (if hi = Some 0 then [] else concat (map (rep_greedy f (lo - 1) (dec hi) n) (progress st (f st))))
     @ (if lo = 0 then [st] else [])"

primrec rmatch :: "bool \<Rightarrow> regex \<Rightarrow> mstate \<Rightarrow> mstate list" where
  "rmatch ic (Lit c) = step_char (lit_ok ic c)"
| "rmatch ic (Cls p) = step_char (cls_ok ic p)"
| "rmatch ic Eps = (\<lambda>st. [st])"
| "rmatch ic (Seq a b) = (\<lambda>st. concat (map (rmatch ic b) (rmatch ic a st)))"
| "rmatch ic (Alt a b) = (\<lambda>st. rmatch ic a st @ rmatch ic b st)"
| "rmatch ic (Rep lo hi r) = (\<lambda>st. rep_greedy (rmatch ic r) lo hi (length (rest st)) st)"
| "rmatch ic (Grp i r) = (\<lambda>st. map (set_group i st) (rmatch ic r st))"
| "rmatch ic WordB = (\<lambda>st. if word_before st \<noteq> word_after st then [st] else [])"
| "rmatch ic Bol = (\<lambda>st. if before st = None then [st] else [])"
| "rmatch ic Eol = (\<lambda>st. if rest st = [] \<or> rest st = [CHR 0x0A] then [st] else [])"

text \<open>A match object: the whole match (group 0) and the numbered groups.\<close>

datatype mtch = Mtch (group0: string) (mgroups: "(nat \<times> string) list")

definition mk_match :: "string \<Rightarrow> mstate \<Rightarrow> mtch" where
  "mk_match s st = Mtch (take (length s - length (rest st)) s) (groups st)"

text \<open>\<open>m.group(i)\<close>, \<open>None\<close> for a group that took no part in the match.\<close>

definition group_of :: "mtch \<Rightarrow> nat \<Rightarrow> string option" where
  "group_of m i = (if i = 0 then Some (group0 m) else map_of (mgroups m) i)"

text \<open>\<open>re.match\<close>: the first way to match at the start of the text.\<close>

definition re_match :: "bool \<Rightarrow> regex \<Rightarrow> string \<Rightarrow> mtch option" where
  "re_match ic r s =
     (case rmatch ic r (MState None s []) of
        [] \<Rightarrow> None
      | st # _ \<Rightarrow> Some (mk_match s st))"

text \<open>\<open>re.search\<close>: the first way to match at the leftmost position that has one.
  The first argument of \<open>search_from\<close> is the character before the position.\<close>

fun search_from :: "bool \<Rightarrow> regex \<Rightarrow> char option \<Rightarrow> string \<Rightarrow> mtch option" where
  "search_from ic r p s =
     (case rmatch ic r (MState p s []) of
        st # _ \<Rightarrow> Some (mk_match s st)
      | [] \<Rightarrow> (case s of [] \<Rightarrow> None | c # cs \<Rightarrow> search_from ic r (Some c) cs))"

definition re_search :: "bool \<Rightarrow> regex \<Rightarrow> string \<Rightarrow> mtch option" where
  "re_search ic r s = search_from ic r None s"

text \<open>
  \<open>re.finditer\<close>: the matches from left to right, each search starting where the
  match before it ended. No pattern that the source gives to \<open>finditer\<close> matches the
  empty string (lemmas \<open>source_patterns_read\<close> and \<open>no_empty_match\<close> below); for a pattern
  that does, the model reports the empty match and moves one character on.
\<close>

function finditer_from :: "bool \<Rightarrow> regex \<Rightarrow> char option \<Rightarrow> string \<Rightarrow> mtch list" where
  "finditer_from ic r p s =
     (case rmatch ic r (MState p s []) of
        st # _ \<Rightarrow>
          (if length (rest st) < length s
           then mk_match s st # finditer_from ic r (before st) (rest st)
           else (case s of
                   [] \<Rightarrow> [mk_match s st]
                 | c # cs \<Rightarrow> mk_match s st # finditer_from ic r (Some c) cs))
      | [] \<Rightarrow> (case s of [] \<Rightarrow> [] | c # cs \<Rightarrow> finditer_from ic r (Some c) cs))"
  by pat_completeness auto
termination
  by (relation "measure (\<lambda>(ic, r, p, s). length s)") auto

definition re_finditer :: "bool \<Rightarrow> regex \<Rightarrow> string \<Rightarrow> mtch list" where
  "re_finditer ic r s = finditer_from ic r None s"

declare finditer_from.simps [simp del]

text \<open>Building blocks for writing the patterns: a sequence, the alternatives of
  \<open>'|'.join(...)\<close>, and a literal string.\<close>

definition seqs :: "regex list \<Rightarrow> regex" where
  "seqs rs = foldr Seq rs Eps"

fun alts :: "regex list \<Rightarrow> regex" where
  "alts [] = Eps"
| "alts [r] = r"
| "alts (r # rs) = Alt r (alts rs)"

definition str :: "string \<Rightarrow> regex" where
  "str s = seqs (map Lit s)"

definition plus :: "regex \<Rightarrow> regex" where
  "plus r = Rep 1 None r"

definition star :: "regex \<Rightarrow> regex" where
  "star r = Rep 0 None r"

definition opt :: "regex \<Rightarrow> regex" where
  "opt r = Rep 0 (Some 1) r"

text \<open>The least number of characters that a match of the pattern reads.\<close>

fun min_len :: "regex \<Rightarrow> nat" where
  "min_len (Lit c) = 1"
| "min_len (Cls p) = 1"
| "min_len Eps = 0"
| "min_len (Seq a b) = min_len a + min_len b"
| "min_len (Alt a b) = min (min_len a) (min_len b)"
| "min_len (Rep lo hi r) = lo * min_len r"
| "min_len (Grp i r) = min_len r"
| "min_len WordB = 0"
| "min_len Bol = 0"
| "min_len Eol = 0"

section \<open>Ticket extraction (utils.py, \<open>extract_ticket_keys\<close>)\<close>

datatype confidence = high | medium | low

datatype mention_type = full_key | partial_numeric | spoken_digits

record ticket =
  key :: string
  confidence :: confidence
  type :: mention_type

definition SPOKEN_DIGITS :: "(string \<times> string) list" where
  "SPOKEN_DIGITS =
     [(''zero'', ''0''), (''one'', ''1''), (''two'', ''2''), (''three'', ''3''), (''four'', ''4''),
      (''five'', ''5''), (''six'', ''6''), (''seven'', ''7''), (''eight'', ''8''), (''nine'', ''9'')]"

text \<open>\<open>\b([A-Z]{2,10}-\d+)\b\<close>\<close>

definition full_pattern :: regex where
  "full_pattern =
     seqs [WordB,
           Grp 1 (seqs [Rep 2 (Some 10) (Cls is_upper), Lit CHR ''-'', plus (Cls is_digit)]),
           WordB]"

text \<open>\<open>(?:ticket|issue|bug|story)\s+(\d+)\<close>\<close>

definition partial_pattern :: regex where
  "partial_pattern =
     seqs [alts [str ''ticket'', str ''issue'', str ''bug'', str ''story''],
           plus (Cls is_space),
           Grp 1 (plus (Cls is_digit))]"

text \<open>\<open>\b(zero|...|nine)(?:\s+(zero|...|nine))*\<close>, built from the keys of the table.\<close>

definition digit_words :: regex where
  "digit_words = alts (map (\<lambda>kv. str (fst kv)) SPOKEN_DIGITS)"

definition spoken_pattern :: regex where
  "spoken_pattern =
     seqs [WordB, Grp 1 digit_words, star (seqs [plus (Cls is_space), Grp 2 digit_words])]"

text \<open>What an f-string prints for a group.\<close>

definition fmt :: "string option \<Rightarrow> string" where
  "fmt g = (case g of None \<Rightarrow> ''None'' | Some s \<Rightarrow> s)"

definition has_key :: "string \<Rightarrow> ticket list \<Rightarrow> bool" where
  "has_key k tickets = list_ex (\<lambda>t. key t = k) tickets"

text \<open>First loop: one mention for each match of the full pattern. Group 1 spans the
  whole pattern between the two \<open>\b\<close> and takes part in every match.\<close>

definition add_full :: "mtch \<Rightarrow> ticket list \<Rightarrow> ticket list" where
  "add_full m tickets =
     (case group_of m 1 of
        None \<Rightarrow> tickets
      | Some k \<Rightarrow> tickets @ [\<lparr>key = k, confidence = high, type = full_key\<rparr>])"

text \<open>Second loop: the key is made from the default project and the number, and is
  appended unless some ticket already has it.\<close>

definition add_partial :: "string \<Rightarrow> mtch \<Rightarrow> ticket list \<Rightarrow> ticket list" where
  "add_partial default_project m tickets =
     (let k = default_project @ ''-'' @ fmt (group_of m 1)
      in if \<not> has_key k tickets
         then tickets @ [\<lparr>key = k, confidence = medium, type = partial_numeric\<rparr>]
         else tickets)"

text \<open>Third loop: the words of the match are turned into digits through the table.\<close>

definition spoken_to_digits :: "string \<Rightarrow> string" where
  "spoken_to_digits g =
     concat (map (\<lambda>word. case map_of SPOKEN_DIGITS (lower word) of None \<Rightarrow> [] | Some d \<Rightarrow> d)
                 (split_ws g))"

definition add_spoken :: "string \<Rightarrow> mtch \<Rightarrow> ticket list \<Rightarrow> ticket list" where
  "add_spoken default_project m tickets =
     (let digits = spoken_to_digits (group0 m)
      in if length digits \<ge> 3
         then (let k = default_project @ ''-'' @ digits
               in if \<not> has_key k tickets
                  then tickets @ [\<lparr>key = k, confidence = low, type = spoken_digits\<rparr>]
                  else tickets)
         else tickets)"

definition tier1 :: "string \<Rightarrow> ticket list" where
  "tier1 text = fold add_full (re_finditer False full_pattern text) []"

definition tier2 :: "string \<Rightarrow> string \<Rightarrow> ticket list \<Rightarrow> ticket list" where
  "tier2 text default_project tickets =
     fold (add_partial default_project) (re_finditer True partial_pattern text) tickets"

definition tier3 :: "string \<Rightarrow> string \<Rightarrow> ticket list \<Rightarrow> ticket list" where
  "tier3 text default_project tickets =
     fold (add_spoken default_project) (re_finditer True spoken_pattern text) tickets"

definition extract_ticket_keys :: "string \<Rightarrow> string \<Rightarrow> ticket list" where
  "extract_ticket_keys text default_project =
     tier3 text default_project (tier2 text default_project (tier1 text))"

text \<open>The mention that the first loop appends for a match.\<close>

definition full_mention :: "mtch \<Rightarrow> ticket" where
  "full_mention m = \<lparr>key = group0 m, confidence = high, type = full_key\<rparr>"

text \<open>New mentions are fresh after old ones: their keys differ from each other and from
  the keys of the old ones.\<close>

definition fresh_after :: "ticket list \<Rightarrow> ticket list \<Rightarrow> bool" where
  "fresh_after old new =
     (distinct (map key new) \<and> set (map key old) \<inter> set (map key new) = {})"


text \<open>The mention that the third loop appends for a match.\<close>

definition spoken_mention :: "string \<Rightarrow> mtch \<Rightarrow> ticket" where
  "spoken_mention dp m =
     \<lparr>key = dp @ ''-'' @ spoken_to_digits (group0 m), confidence = low, type = spoken_digits\<rparr>"


section \<open>Speaker segmentation (utils.py, \<open>parse_speakers\<close>)\<close>

text \<open>
  A Python dictionary keeps its keys in the order of their first insertion; it is
  modelled as an association list with distinct keys in that order.
\<close>

type_synonym speakers = "(string \<times> string list) list"

text \<open>\<open>^([A-Z][a-zA-Z\s]+):\s*(.*)$\<close>\<close>

definition speaker_pattern :: regex where
  "speaker_pattern =
     seqs [Bol,
           Grp 1 (seqs [Cls is_upper, plus (Cls is_alpha_or_space)]),
           Lit CHR '':'',
           star (Cls is_space),
           Grp 2 (star (Cls not_newline)),
           Eol]"

text \<open>\<open>d[k].append(x)\<close>. The source only appends under a key that it has just inserted or
  that is the current speaker, which is always a key (lemma \<open>fold_step_inv\<close> below), so
  the \<open>KeyError\<close> of a missing key does not arise; the model leaves the dictionary as it
  is there.\<close>

definition dict_append :: "string \<Rightarrow> string \<Rightarrow> speakers \<Rightarrow> speakers" where
  "dict_append k x d = map (\<lambda>(k', v). if k' = k then (k', v @ [x]) else (k', v)) d"

text \<open>Truth value of \<open>current_speaker\<close>: \<open>None\<close> and the empty string are false.\<close>

definition truthy :: "string option \<Rightarrow> bool" where
  "truthy v = (case v of None \<Rightarrow> False | Some s \<Rightarrow> s \<noteq> [])"

text \<open>The body of the loop over the lines, on the pair of \<open>speakers\<close> and
  \<open>current_speaker\<close>.\<close>

definition speaker_step :: "string \<Rightarrow> speakers \<times> string option \<Rightarrow> speakers \<times> string option" where
  "speaker_step line st =
     (case st of (speakers, current_speaker) \<Rightarrow>
        (case re_match False speaker_pattern (strip line) of
           Some m \<Rightarrow>
             (let cs = strip (fmt (group_of m 1));
                  content = strip (fmt (group_of m 2));
                  speakers1 = (if cs \<notin> set (map fst speakers) then speakers @ [(cs, [])] else speakers);
                  speakers2 = (if content \<noteq> [] then dict_append cs content speakers1 else speakers1)
              in (speakers2, Some cs))
         | None \<Rightarrow>
             (case current_speaker of
                Some cs \<Rightarrow>
                  (if truthy current_speaker \<and> strip line \<noteq> []
                   then (dict_append cs (strip line) speakers, current_speaker)
                   else (speakers, current_speaker))
              | None \<Rightarrow> (speakers, current_speaker))))"

definition parse_speakers :: "string \<Rightarrow> speakers" where
  "parse_speakers text = fst (fold speaker_step (split_on CHR 0x0A text) ([], None))"

subsection \<open>The segmentation as the specification describes it\<close>

text \<open>A line is a speaker line with its name and the rest after the colon (both
  trimmed), a continuation (trimmed, not blank), or blank.\<close>

datatype line_kind = SpeakerLine string string | Continuation string | Blank

definition classify :: "string \<Rightarrow> line_kind" where
  "classify line =
     (case re_match False speaker_pattern (strip line) of
        Some m \<Rightarrow> SpeakerLine (strip (fmt (group_of m 1))) (strip (fmt (group_of m 2)))
      | None \<Rightarrow> (if strip line = [] then Blank else Continuation (strip line)))"

text \<open>The continuation lines up to the next speaker line.\<close>

fun block :: "line_kind list \<Rightarrow> string list" where
  "block [] = []"
| "block (SpeakerLine s c # ls) = []"
| "block (Continuation u # ls) = u # block ls"
| "block (Blank # ls) = block ls"

text \<open>What a speaker line contributes: its rest when not empty, then its block.\<close>

definition turn :: "string \<Rightarrow> line_kind list \<Rightarrow> string list" where
  "turn c ls = (if c \<noteq> [] then [c] else []) @ block ls"

text \<open>The list that the specification's sentence gives a speaker: the turn of the
  line that introduces the speaker.\<close>

fun first_turn :: "string \<Rightarrow> line_kind list \<Rightarrow> string list option" where
  "first_turn n [] = None"
| "first_turn n (SpeakerLine s c # ls) = (if s = n then Some (turn c ls) else first_turn n ls)"
| "first_turn n (Continuation u # ls) = first_turn n ls"
| "first_turn n (Blank # ls) = first_turn n ls"

text \<open>All the turns of a speaker, in the order of the transcript.\<close>

fun all_turns :: "string \<Rightarrow> line_kind list \<Rightarrow> string list" where
  "all_turns n [] = []"
| "all_turns n (SpeakerLine s c # ls) = (if s = n then turn c ls else []) @ all_turns n ls"
| "all_turns n (Continuation u # ls) = all_turns n ls"
| "all_turns n (Blank # ls) = all_turns n ls"

text \<open>The number of lines that introduce a speaker.\<close>

fun introductions :: "string \<Rightarrow> line_kind list \<Rightarrow> nat" where
  "introductions n [] = 0"
| "introductions n (SpeakerLine s c # ls) = (if s = n then 1 else 0) + introductions n ls"
| "introductions n (Continuation u # ls) = introductions n ls"
| "introductions n (Blank # ls) = introductions n ls"

definition kinds :: "string \<Rightarrow> line_kind list" where
  "kinds text = map classify (split_on CHR 0x0A text)"

text \<open>The body of the loop, seen on the kind of the line.\<close>

fun kind_step :: "line_kind \<Rightarrow> speakers \<times> string option \<Rightarrow> speakers \<times> string option" where
  "kind_step (SpeakerLine s c) (sp, cur) =
     (let sp1 = (if s \<notin> set (map fst sp) then sp @ [(s, [])] else sp);
          sp2 = (if c \<noteq> [] then dict_append s c sp1 else sp1)
      in (sp2, Some s))"
| "kind_step (Continuation u) (sp, cur) =
     (case cur of
        Some cs \<Rightarrow> (if cs \<noteq> [] then (dict_append cs u sp, cur) else (sp, cur))
      | None \<Rightarrow> (sp, cur))"
| "kind_step Blank (sp, cur) = (sp, cur)"

text \<open>What the loop keeps true: the keys are distinct, and the current speaker is a key
  and not the empty string.\<close>

definition step_inv :: "speakers \<times> string option \<Rightarrow> bool" where
  "step_inv st =
     (distinct (map fst (fst st)) \<and>
      (case snd st of None \<Rightarrow> True | Some c \<Rightarrow> c \<noteq> [] \<and> c \<in> set (map fst (fst st))))"

definition named :: "line_kind \<Rightarrow> bool" where
  "named k = (case k of SpeakerLine s c \<Rightarrow> s \<noteq> [] | _ \<Rightarrow> True)"

text \<open>The utterances of speaker \<open>n\<close> when the loop starts from the dictionary \<open>sp\<close> and
  the current speaker \<open>cur\<close> and reads the lines \<open>ks\<close>.\<close>

definition expected :: "string \<Rightarrow> speakers \<Rightarrow> string option \<Rightarrow> line_kind list \<Rightarrow> string list option" where
  "expected n sp cur ks =
     (case map_of sp n of
        Some us \<Rightarrow> Some (us @ (if cur = Some n then block ks else []) @ all_turns n ks)
      | None \<Rightarrow> (if 0 < introductions n ks then Some (all_turns n ks) else None))"


section \<open>Exceptions\<close>

text \<open>
  An exception is modelled by its message, the string that \<open>str(e)\<close> gives. A
  computation that may raise returns \<open>Inl\<close> of the message or \<open>Inr\<close> of its value.
  Only the exceptions that \<open>except Exception\<close> catches are modelled.
\<close>

type_synonym exn = string

definition IndexError :: exn where
  "IndexError = ''list index out of range''"

section \<open>Grouping the utterances by ticket (tools.py, \<open>parse_transcript\<close>)\<close>

text \<open>\<open>ticket_key.split('-')[1]\<close>: the second field, \<open>IndexError\<close> when there is none.\<close>

definition second_field :: "string \<Rightarrow> exn + string" where
  "second_field ticket_key =
     (case split_on CHR ''-'' ticket_key of
        a # b # _ \<Rightarrow> Inr b
      | _ \<Rightarrow> Inl IndexError)"

text \<open>\<open>any(str(ticket_key.split('-')[1]) in line for line in lines)\<close>: the generator has
  its own \<open>line\<close>, which runs over the whole list of the speaker; the field is computed
  anew for each line and the scan stops at the first line that has it.\<close>

fun any_field_in :: "string \<Rightarrow> string list \<Rightarrow> exn + bool" where
  "any_field_in ticket_key [] = Inr False"
| "any_field_in ticket_key (line # lines) =
     (case second_field ticket_key of
        Inl e \<Rightarrow> Inl e
      | Inr f \<Rightarrow> (if py_in f line then Inr True else any_field_in ticket_key lines))"

text \<open>The list comprehension: \<open>all_lines\<close> is the speaker's list, the last argument the
  lines still to test. The \<open>or\<close> evaluates its right side only when the left is false.\<close>

fun relevant_from :: "string \<Rightarrow> string list \<Rightarrow> string list \<Rightarrow> exn + string list" where
  "relevant_from ticket_key all_lines [] = Inr []"
| "relevant_from ticket_key all_lines (line # lines) =
     (case (if py_in ticket_key line then Inr True else any_field_in ticket_key all_lines) of
        Inl e \<Rightarrow> Inl e
      | Inr keep \<Rightarrow>
          (case relevant_from ticket_key all_lines lines of
             Inl e \<Rightarrow> Inl e
           | Inr r \<Rightarrow> Inr (if keep then line # r else r)))"

definition relevant_lines :: "string \<Rightarrow> string list \<Rightarrow> exn + string list" where
  "relevant_lines ticket_key lines = relevant_from ticket_key lines lines"

text \<open>\<open>d[k] = v\<close>: the value of an existing key is replaced in place, a new key goes to
  the end.\<close>

fun dict_set :: "'k \<Rightarrow> 'v \<Rightarrow> ('k \<times> 'v) list \<Rightarrow> ('k \<times> 'v) list" where
  "dict_set k v [] = [(k, v)]"
| "dict_set k v ((k', v') # d) = (if k' = k then (k, v) # d else (k', v') # dict_set k v d)"

text \<open>The loop over \<open>speakers.items()\<close> for one ticket; \<open>acc\<close> is the \<open>speakers\<close> entry of
  the ticket's context.\<close>

fun context_speakers :: "string \<Rightarrow> speakers \<Rightarrow> speakers \<Rightarrow> exn + speakers" where
  "context_speakers ticket_key [] acc = Inr acc"
| "context_speakers ticket_key ((speaker, lines) # items) acc =
     (case relevant_lines ticket_key lines of
        Inl e \<Rightarrow> Inl e
      | Inr relevant \<Rightarrow>
          context_speakers ticket_key items
            (if relevant \<noteq> [] then dict_set speaker relevant acc else acc))"

record ticket_context =
  ctx_confidence :: confidence
  ctx_type :: mention_type
  ctx_speakers :: speakers
  ctx_mentions :: "string list"

type_synonym ticket_contexts = "(string \<times> ticket_context) list"

text \<open>The loop over the tickets.\<close>

fun group_by_ticket :: "ticket list \<Rightarrow> speakers \<Rightarrow> ticket_contexts \<Rightarrow> exn + ticket_contexts" where
  "group_by_ticket [] speakers acc = Inr acc"
| "group_by_ticket (t # ts) speakers acc =
     (case context_speakers (key t) speakers [] of
        Inl e \<Rightarrow> Inl e
      | Inr sp \<Rightarrow>
          group_by_ticket ts speakers
            (dict_set (key t)
               \<lparr>ctx_confidence = confidence t, ctx_type = type t, ctx_speakers = sp, ctx_mentions = []\<rparr>
               acc))"

subsection \<open>The grouping as the specification describes it\<close>

text \<open>The numeric suffix of a key: its trailing digits.\<close>

definition numeric_suffix :: "string \<Rightarrow> string" where
  "numeric_suffix k = rev (takeWhile is_digit (rev k))"

text \<open>An utterance is relevant when it contains the key, or when some line of the same
  speaker contains the numeric suffix of the key.\<close>

definition relevant_spec :: "string \<Rightarrow> string list \<Rightarrow> string list" where
  "relevant_spec k lines =
     filter (\<lambda>line. py_in k line \<or> list_ex (py_in (numeric_suffix k)) lines) lines"

text \<open>The speakers of a ticket's context: those with a relevant utterance, each with
  its relevant utterances, in the order of the speaker dictionary.\<close>

definition speakers_spec :: "string \<Rightarrow> speakers \<Rightarrow> speakers" where
  "speakers_spec k sp =
     filter (\<lambda>entry. snd entry \<noteq> []) (map (\<lambda>entry. (fst entry, relevant_spec k (snd entry))) sp)"

text \<open>A key with one dash: a part without a dash, a dash, and digits.\<close>

definition one_dash :: "string \<Rightarrow> bool" where
  "one_dash k =
     (\<exists>n \<le> length k. CHR ''-'' \<notin> set (take n k) \<and> drop n k \<noteq> []
        \<and> hd (drop n k) = CHR ''-'' \<and> tl (drop n k) \<noteq> [] \<and> list_all is_digit (tl (drop n k)))"

section \<open>The comment in Atlassian Document Format (utils.py, \<open>generate_adf_comment\<close>)\<close>

datatype mark = strong | em

text \<open>A node of the document: a text run with its marks (no marks for a run without the
  \<open>marks\<close> entry), a paragraph, a heading with its level, a list item, a bullet list.\<close>

datatype adf_node =
    TextNode string "mark list"
  | Paragraph "adf_node list"
  | Heading nat "adf_node list"
  | ListItem "adf_node list"
  | BulletList "adf_node list"

record adf_doc =
  version :: nat
  doc_type :: string
  doc_content :: "adf_node list"

text \<open>The title of the comment. The source file has the eight bytes below between
  \<open>Update\<close> and the date (a dash that was encoded twice).\<close>

definition title :: "string \<Rightarrow> string" where
  "title date_str =
     ''Standup Update '' @ [CHR 0xC3, CHR 0xA2, CHR 0xE2, CHR 0x82, CHR 0xAC, CHR 0xE2, CHR 0x80, CHR 0x9D]
       @ '' '' @ date_str"

definition FOOTER :: string where
  "FOOTER = ''Generated by Standup Agent based on meeting notes; verify accuracy before relying on this content. For discrepancies, contact your Product Owner.''"

definition title_paragraph :: "string \<Rightarrow> adf_node" where
  "title_paragraph date_str = Paragraph [TextNode (title date_str) [strong]]"

definition footer_paragraph :: adf_node where
  "footer_paragraph = Paragraph [TextNode FOOTER [em]]"

text \<open>The two blocks appended for one speaker: the heading and the bullet list.\<close>

definition speaker_section :: "string \<times> string list \<Rightarrow> adf_node list" where
  "speaker_section item =
     (case item of (speaker, points) \<Rightarrow>
        [Heading 3 [TextNode speaker []],
         BulletList (map (\<lambda>point. ListItem [Paragraph [TextNode point []]]) points)])"

text \<open>The first parameter, \<open>content\<close>, is not used by the source.\<close>

definition generate_adf_comment :: "'a \<Rightarrow> string \<Rightarrow> speakers \<Rightarrow> adf_doc" where
  "generate_adf_comment content date_str speakers_data =
     \<lparr>version = 1, doc_type = ''doc'',
      doc_content =
        fold (\<lambda>item blocks. blocks @ speaker_section item) speakers_data [title_paragraph date_str]
          @ [footer_paragraph]\<rparr>"

subsection \<open>The text of a document\<close>

fun node_texts :: "adf_node \<Rightarrow> string list" where
  "node_texts (TextNode s ms) = [s]"
| "node_texts (Paragraph ns) = concat (map node_texts ns)"
| "node_texts (Heading l ns) = concat (map node_texts ns)"
| "node_texts (ListItem ns) = concat (map node_texts ns)"
| "node_texts (BulletList ns) = concat (map node_texts ns)"

text \<open>The text nodes of the document, concatenated in document order.\<close>

definition all_text :: "adf_doc \<Rightarrow> string" where
  "all_text d = concat (concat (map node_texts (doc_content d)))"

text \<open>The number of positions at which \<open>p\<close> occurs in a string.\<close>

fun count_occ :: "string \<Rightarrow> string \<Rightarrow> nat" where
  "count_occ p [] = (if p = [] then 1 else 0)"
| "count_occ p (c # cs) = (if is_prefix p (c # cs) then 1 else 0) + count_occ p cs"

text \<open>No proper non-empty prefix of \<open>p\<close> is also a suffix of \<open>p\<close>.\<close>

definition border_free :: "string \<Rightarrow> bool" where
  "border_free p = list_all (\<lambda>k. take k p \<noteq> drop (length p - k) p) [1..<length p]"

section \<open>The date of the standup (utils.py, \<open>extract_date_from_transcript\<close>)\<close>

text \<open>
  \<open>(?:standup|meeting)\s+(?:for|on)\s+(\d{1,2}\s+(?:Jan|...|Dec)[a-z]*(?:\s+\d{4})?)\<close>
\<close>

definition date_pattern1 :: regex where
  "date_pattern1 =
     seqs [alts [str ''standup'', str ''meeting''],
           plus (Cls is_space),
           alts [str ''for'', str ''on''],
           plus (Cls is_space),
           Grp 1 (seqs [Rep 1 (Some 2) (Cls is_digit),
                        plus (Cls is_space),
                        alts [str ''Jan'', str ''Feb'', str ''Mar'', str ''Apr'', str ''May'', str ''Jun'',
                              str ''Jul'', str ''Aug'', str ''Sep'', str ''Oct'', str ''Nov'', str ''Dec''],
                        star (Cls is_lower),
                        opt (seqs [plus (Cls is_space), Rep 4 (Some 4) (Cls is_digit)])])]"

text \<open>\<open>(\d{1,2}\s+(?:January|...|December)\s+\d{4})\<close>\<close>

definition date_pattern2 :: regex where
  "date_pattern2 =
     Grp 1 (seqs [Rep 1 (Some 2) (Cls is_digit),
                  plus (Cls is_space),
                  alts [str ''January'', str ''February'', str ''March'', str ''April'', str ''May'',
                        str ''June'', str ''July'', str ''August'', str ''September'', str ''October'',
                        str ''November'', str ''December''],
                  plus (Cls is_space),
                  Rep 4 (Some 4) (Cls is_digit)])"

definition date_patterns :: "regex list" where
  "date_patterns = [date_pattern1, date_pattern2]"

text \<open>
  The loop over the patterns. \<open>parse\<close> stands for \<open>dateutil.parser.parse\<close>, a library
  outside the repository: it returns a date or raises, and the bare \<open>except\<close> of the
  source turns any raise into a move to the next pattern. Both patterns are searched
  with \<open>IGNORECASE\<close>.
\<close>

fun try_patterns :: "(string \<Rightarrow> exn + 'd) \<Rightarrow> regex list \<Rightarrow> string \<Rightarrow> 'd option" where
  "try_patterns parse [] text = None"
| "try_patterns parse (pattern # patterns) text =
     (case re_search True pattern text of
        Some m \<Rightarrow>
          (case parse (fmt (group_of m 1)) of
             Inr d \<Rightarrow> Some d
           | Inl e \<Rightarrow> try_patterns parse patterns text)
      | None \<Rightarrow> try_patterns parse patterns text)"

definition extract_date_from_transcript :: "(string \<Rightarrow> exn + 'd) \<Rightarrow> string \<Rightarrow> 'd option" where
  "extract_date_from_transcript parse text = try_patterns parse date_patterns text"

section \<open>Dates and the zone (utils.py, \<open>get_sydney_date\<close>)\<close>

text \<open>
  A \<open>datetime\<close>, as far as the program reads it: the year, the month and the day,
  which are what \<open>strftime("%d %b %Y")\<close> prints.
\<close>

datatype month = Jan | Feb | Mar | Apr | May | Jun | Jul | Aug | Sep | Oct | Nov | Dec

record datetime =
  dt_year :: nat
  dt_month :: month
  dt_day :: nat

text \<open>\<open>%b\<close>, the abbreviated name of the month (in the C locale, which the program
  does not change).\<close>

definition month_abbr :: "month \<Rightarrow> string" where
  "month_abbr m =
     (case m of
        Jan \<Rightarrow> ''Jan'' | Feb \<Rightarrow> ''Feb'' | Mar \<Rightarrow> ''Mar'' | Apr \<Rightarrow> ''Apr''
      | May \<Rightarrow> ''May'' | Jun \<Rightarrow> ''Jun'' | Jul \<Rightarrow> ''Jul'' | Aug \<Rightarrow> ''Aug''
      | Sep \<Rightarrow> ''Sep'' | Oct \<Rightarrow> ''Oct'' | Nov \<Rightarrow> ''Nov'' | Dec \<Rightarrow> ''Dec'')"

text \<open>\<open>%d\<close>, the day as two digits.\<close>

definition two_digits :: "nat \<Rightarrow> string" where
  "two_digits n = (if n < 10 then ''0'' @ str_nat n else str_nat n)"

text \<open>\<open>dt.strftime("%d %b %Y")\<close>; the year is printed in decimal (four digits from the
  year 1000 on).\<close>

definition strftime_d_b_Y :: "datetime \<Rightarrow> string" where
  "strftime_d_b_Y dt =
     two_digits (dt_day dt) @ '' '' @ month_abbr (dt_month dt) @ '' '' @ str_nat (dt_year dt)"

text \<open>
  What the program takes from outside the repository: \<open>dateutil.parser.parse\<close>, which
  returns a \<open>datetime\<close> or raises; the clock, \<open>datetime.now(ZoneInfo(name))\<close>, which gives
  the current date in the zone of that name; and \<open>dt.astimezone(ZoneInfo(name))\<close>, the
  same instant in the zone of that name. The modules that the source imports are taken
  to be importable.
\<close>

record calendar =
  parse_date :: "string \<Rightarrow> exn + datetime"
  now_in :: "string \<Rightarrow> datetime"
  astimezone :: "datetime \<Rightarrow> string \<Rightarrow> datetime"

text \<open>\<open>SYDNEY_TZ = ZoneInfo("Australia/Sydney")\<close>: the zone, by its name.\<close>

definition SYDNEY_TZ :: string where
  "SYDNEY_TZ = ''Australia/Sydney''"

text \<open>\<open>get_sydney_date(date_str=None)\<close>: a given, non-empty string is parsed and moved to
  the zone of Sydney; otherwise the result is the current date there.\<close>

definition get_sydney_date :: "calendar \<Rightarrow> string option \<Rightarrow> exn + datetime" where
  "get_sydney_date cal date_str =
     (case date_str of
        Some ds \<Rightarrow>
          (if ds \<noteq> []
           then (case parse_date cal ds of
                   Inl e \<Rightarrow> Inl e
                 | Inr dt \<Rightarrow> Inr (astimezone cal dt SYDNEY_TZ))
           else Inr (now_in cal SYDNEY_TZ))
      | None \<Rightarrow> Inr (now_in cal SYDNEY_TZ))"

section \<open>The operation \<open>parse_transcript\<close> (tools.py)\<close>

text \<open>
  The dictionary that an operation returns: its \<open>status\<close>, the \<open>message\<close> of a pending
  result, the \<open>error_message\<close> of an error, and the other entries as a payload.
\<close>

record 'p result =
  status :: string
  message :: "string option"
  error_message :: "string option"
  payload :: "'p option"

definition success :: "'p \<Rightarrow> 'p result" where
  "success p = \<lparr>status = ''success'', message = None, error_message = None, payload = Some p\<rparr>"


definition error :: "exn \<Rightarrow> 'p result" where
  "error e = \<lparr>status = ''error'', message = None, error_message = Some e, payload = None\<rparr>"

text \<open>\<open>try: ... except Exception as e: return {"status": "error", "error_message": str(e)}\<close>
  around a body that returns a result or raises.\<close>

definition try_except :: "(exn + 'p result) \<Rightarrow> 'p result" where
  "try_except body = (case body of Inl e \<Rightarrow> error e | Inr r \<Rightarrow> r)"

record parsed =
  parsed_date :: string
  parsed_tickets :: "ticket list"
  parsed_speakers :: speakers
  parsed_contexts :: ticket_contexts
  parsed_project :: string

text \<open>\<open>date_used = extracted_date if extracted_date else get_sydney_date()\<close>; a
  \<open>datetime\<close> is always true.\<close>

definition date_used :: "calendar \<Rightarrow> string \<Rightarrow> exn + datetime" where
  "date_used cal transcript_text =
     (case extract_date_from_transcript (parse_date cal) transcript_text of
        Some extracted_date \<Rightarrow> Inr extracted_date
      | None \<Rightarrow> get_sydney_date cal None)"

definition parse_transcript_body :: "calendar \<Rightarrow> string \<Rightarrow> string \<Rightarrow> exn + parsed result" where
  "parse_transcript_body cal transcript_text default_project =
     (case date_used cal transcript_text of
        Inl e \<Rightarrow> Inl e
      | Inr used \<Rightarrow>
          (let tickets = extract_ticket_keys transcript_text default_project;
               speakers = parse_speakers transcript_text
           in case group_by_ticket tickets speakers [] of
                Inl e \<Rightarrow> Inl e
              | Inr ticket_contexts \<Rightarrow>
                  Inr (success
                        \<lparr>parsed_date = strftime_d_b_Y used,
                         parsed_tickets = tickets,
                         parsed_speakers = speakers,
                         parsed_contexts = ticket_contexts,
                         parsed_project = default_project\<rparr>)))"

definition parse_transcript :: "calendar \<Rightarrow> string \<Rightarrow> string \<Rightarrow> parsed result" where
  "parse_transcript cal transcript_text default_project =
     try_except (parse_transcript_body cal transcript_text default_project)"


text \<open>
  An outside for the dates: a parser that reads \<open>27 Oct 2025\<close> and \<open>1 March 2025\<close> and
  raises on every other string, and a clock on which it is 5 November 2026 in Sydney and
  still 4 November elsewhere.
\<close>

definition sample_calendar :: calendar where
  "sample_calendar =
     \<lparr>parse_date =
        (\<lambda>s. if s = ''27 Oct 2025'' then Inr \<lparr>dt_year = 2025, dt_month = Oct, dt_day = 27\<rparr>
             else if s = ''1 March 2025'' then Inr \<lparr>dt_year = 2025, dt_month = Mar, dt_day = 1\<rparr>
             else Inl ''Unknown string format''),
      now_in =
        (\<lambda>zone. if zone = ''Australia/Sydney''
               then \<lparr>dt_year = 2026, dt_month = Nov, dt_day = 5\<rparr>
               else \<lparr>dt_year = 2026, dt_month = Nov, dt_day = 4\<rparr>),
      astimezone = (\<lambda>dt zone. dt)\<rparr>"

section \<open>The session state and the calls to the outside\<close>

text \<open>
  What the library reads of a Google credential object: whether it is valid, whether
  it has expired, and whether it has a refresh token.
\<close>

record gcreds =
  cred_valid :: bool
  cred_expired :: bool
  cred_has_refresh :: bool

text \<open>The values kept in the session state: \<open>None\<close>, a string (a Jira token, a cloud
  identifier), or the stored form of a Google credential.\<close>

datatype pyval = PyNone | PyStr string | PyInfo gcreds

text \<open>The truth value that \<open>if v:\<close> tests: \<open>None\<close> and the empty string are false; the
  stored form of a credential is a dictionary with entries, which is true.\<close>

definition truthy_val :: "pyval \<Rightarrow> bool" where
  "truthy_val v = (case v of PyNone \<Rightarrow> False | PyStr s \<Rightarrow> s \<noteq> [] | PyInfo c \<Rightarrow> True)"

text \<open>
  \<open>tool_context.state\<close> is a dictionary from strings to values. The parameter
  \<open>tool_context\<close> of the operations is optional and defaults to \<open>None\<close>: a session is
  the state of the tool context, or nothing when there is no tool context.
\<close>

type_synonym state = "string \<Rightarrow> pyval option"

type_synonym session = "state option"

datatype provider = Google | Jira

text \<open>The calls that leave the program, in the order in which they are made.\<close>

text \<open>
  The addresses of the requests to Atlassian: the accessible resources
  (\<open>https://api.atlassian.com/oauth/token/accessible-resources\<close>), an issue and the
  comments of an issue (\<open>https://api.atlassian.com/ex/jira/{cloud_id}/rest/api/3/issue/{key}\<close>,
  with \<open>/comment\<close> for the comments), given by the cloud identifier and the key.
\<close>

datatype endpoint =
    Resources
  | Issue pyval string
  | Comment pyval string

datatype event =
    GetAuthResponse provider
  | RequestCredential provider
  | HttpGet endpoint
  | HttpPost endpoint
  | LibraryCall string

text \<open>
  A computation on the session: from the session before, the value it returns or the
  exception it raises, the session after, and the calls it made.
\<close>

type_synonym 'a io = "session \<Rightarrow> (exn + 'a) \<times> session \<times> event list"

definition io_return :: "'a \<Rightarrow> 'a io" where
  "io_return a = (\<lambda>s. (Inr a, s, []))"

definition io_raise :: "exn \<Rightarrow> 'a io" where
  "io_raise e = (\<lambda>s. (Inl e, s, []))"

definition io_bind :: "'a io \<Rightarrow> ('a \<Rightarrow> 'b io) \<Rightarrow> 'b io" where
  "io_bind m f =
     (\<lambda>s. case m s of
            (Inl e, s1, ev1) \<Rightarrow> (Inl e, s1, ev1)
          | (Inr a, s1, ev1) \<Rightarrow> (case f a s1 of (r, s2, ev2) \<Rightarrow> (r, s2, ev1 @ ev2)))"

text \<open>A call to the outside: it is recorded, and it returns or raises what the
  outside decides.\<close>

definition call_out :: "event \<Rightarrow> (exn + 'a) \<Rightarrow> 'a io" where
  "call_out ev outcome = (\<lambda>s. (outcome, s, [ev]))"

definition no_context :: "string \<Rightarrow> exn" where
  "no_context attr = [CHR 0x27] @ ''NoneType'' @ [CHR 0x27] @ '' object has no attribute ''
                       @ [CHR 0x27] @ attr @ [CHR 0x27]"

text \<open>\<open>tool_context.state.get(k)\<close>: \<open>None\<close> for a missing key; an \<open>AttributeError\<close> when
  there is no tool context.\<close>

definition state_get :: "string \<Rightarrow> pyval io" where
  "state_get k =
     (\<lambda>s. case s of
            None \<Rightarrow> (Inl (no_context ''state''), s, [])
          | Some st \<Rightarrow> (Inr (case st k of None \<Rightarrow> PyNone | Some v \<Rightarrow> v), s, []))"

text \<open>\<open>tool_context.state[k] = v\<close>\<close>

definition state_set :: "string \<Rightarrow> pyval \<Rightarrow> unit io" where
  "state_set k v =
     (\<lambda>s. case s of
            None \<Rightarrow> (Inl (no_context ''state''), s, [])
          | Some st \<Rightarrow> (Inr (), Some (st(k \<mapsto> v)), []))"

section \<open>The Jira token and the cloud identifier (tools.py \<open>get_jira_auth\<close>, utils.py \<open>get_jira_cloud_id\<close>)\<close>


definition JIRA_TOKEN_CACHE_KEY :: string where
  "JIRA_TOKEN_CACHE_KEY = ''standup_agent_jira_token''"

definition CLOUD_ID_KEY :: string where
  "CLOUD_ID_KEY = JIRA_TOKEN_CACHE_KEY @ ''_cloud_id''"


text \<open>
  An exchanged credential of the agent framework: its \<open>oauth2\<close> part, when it has one,
  holds the access token and the refresh token, each a string or \<open>None\<close>.
\<close>

record oauth2_auth =
  access_token :: pyval
  refresh_token :: pyval

record credential =
  oauth2 :: "oauth2_auth option"

text \<open>
  What the framework does when asked: \<open>get_auth_response\<close> returns an exchanged
  credential or \<open>None\<close>, or raises; \<open>request_credential\<close> returns or raises.
\<close>

record auth_env =
  auth_response :: "exn + credential option"
  request_credential :: "exn + unit"

definition get_jira_auth :: "auth_env \<Rightarrow> pyval io" where
  "get_jira_auth env =
     io_bind (state_get JIRA_TOKEN_CACHE_KEY) (\<lambda>cached_token.
       if truthy_val cached_token then io_return cached_token
       else
         io_bind (call_out (GetAuthResponse Jira) (auth_response env)) (\<lambda>exchanged_credential.
           case exchanged_credential of
             None \<Rightarrow>
               io_bind (call_out (RequestCredential Jira) (request_credential env)) (\<lambda>_.
                 io_return PyNone)
           | Some cred \<Rightarrow>
               (case oauth2 cred of
                  None \<Rightarrow> io_raise (no_context ''access_token'')
                | Some auth \<Rightarrow>
                    io_bind (state_set JIRA_TOKEN_CACHE_KEY (access_token auth)) (\<lambda>_.
                      io_return (access_token auth)))))"

text \<open>
  The reply to the request for the accessible resources: its status code, and what
  \<open>response.json()\<close> gives, an exception or the list of the resources, each with what
  reading its \<open>id\<close> gives (the provider documents a JSON array of objects).
\<close>

record resources_reply =
  resources_status :: int
  resources_json :: "exn + (exn + pyval) list"

definition get_jira_cloud_id :: "(exn + resources_reply) \<Rightarrow> pyval \<Rightarrow> pyval io" where
  "get_jira_cloud_id http access_tok =
     io_bind (state_get CLOUD_ID_KEY) (\<lambda>cached_cloud_id.
       if truthy_val cached_cloud_id then io_return cached_cloud_id
       else
         io_bind (call_out (HttpGet Resources) http) (\<lambda>response.
           if resources_status response \<noteq> 200 then io_return PyNone
           else
             (case resources_json response of
                Inl e \<Rightarrow> io_raise e
              | Inr resources \<Rightarrow>
                  (case resources of
                     [] \<Rightarrow> io_return PyNone
                   | first # _ \<Rightarrow>
                       (case first of
                          Inl e \<Rightarrow> io_raise e
                        | Inr cloud_id \<Rightarrow>
                            io_bind (state_set CLOUD_ID_KEY cloud_id) (\<lambda>_.
                              io_return cloud_id))))))"

subsection \<open>Sessions\<close>

text \<open>A session is a sequence of calls of the two functions on the same tool context,
  each with what the outside answers during that call.\<close>

datatype cache_call =
    AuthCall auth_env
  | CloudCall "exn + resources_reply" pyval

definition run_call :: "cache_call \<Rightarrow> pyval io" where
  "run_call c = (case c of AuthCall env \<Rightarrow> get_jira_auth env | CloudCall http tok \<Rightarrow> get_jira_cloud_id http tok)"

text \<open>The results of the calls, the session after the last one, and all the calls made
  to the outside.\<close>

fun run :: "cache_call list \<Rightarrow> session \<Rightarrow> (exn + pyval) list \<times> session \<times> event list" where
  "run [] s = ([], s, [])"
| "run (c # cs) s =
     (case run_call c s of
        (r, s1, ev1) \<Rightarrow> (case run cs s1 of (rs, s2, ev2) \<Rightarrow> (r # rs, s2, ev1 @ ev2)))"

text \<open>The state holds the non-empty string \<open>v\<close> under the key \<open>k\<close>.\<close>

definition cached :: "string \<Rightarrow> string \<Rightarrow> session \<Rightarrow> bool" where
  "cached k v s = (case s of None \<Rightarrow> False | Some st \<Rightarrow> st k = Some (PyStr v) \<and> v \<noteq> [])"

text \<open>The state of the tool context holds nothing that counts as stored under the key:
  no entry, \<open>None\<close>, or the empty string.\<close>

definition uncached :: "string \<Rightarrow> session \<Rightarrow> bool" where
  "uncached k s =
     (case s of
        None \<Rightarrow> False
      | Some st \<Rightarrow> \<not> truthy_val (case st k of None \<Rightarrow> PyNone | Some v \<Rightarrow> v))"

text \<open>A reply to the request for the accessible resources that yields no identifier:
  a status other than 200, or an empty list of resources.\<close>

definition no_identifier :: "resources_reply \<Rightarrow> bool" where
  "no_identifier reply = (resources_status reply \<noteq> 200 \<or> resources_json reply = Inr [])"

definition is_auth_call :: "cache_call \<Rightarrow> bool" where
  "is_auth_call c = (case c of AuthCall env \<Rightarrow> True | CloudCall http tok \<Rightarrow> False)"

text \<open>A state in which a token and a cloud identifier are stored.\<close>

definition warm_state :: state where
  "warm_state = (Map.empty(JIRA_TOKEN_CACHE_KEY \<mapsto> PyStr ''tok'', CLOUD_ID_KEY \<mapsto> PyStr ''cloud-1''))"

section \<open>Handlers and the boundary of an operation\<close>




section \<open>The operations on Jira (tools.py)\<close>















section \<open>The operation \<open>generate_jira_comment\<close> (tools.py)\<close>

text \<open>The entries that the operation reads of \<open>ticket_info\<close>, each absent or a string.
  An empty \<open>ticket_info\<close> counts as none.\<close>

record ticket_info =
  ticket_status :: "string option"
  ticket_assignee :: "string option"
  ticket_summary :: "string option"











text \<open>The messages of the \<open>AttributeError\<close> and of the \<open>TypeError\<close>.\<close>

definition no_attribute :: "string \<Rightarrow> string \<Rightarrow> exn" where
  "no_attribute ty attr = [CHR 0x27] @ ty @ [CHR 0x27] @ '' object has no attribute ''
                            @ [CHR 0x27] @ attr @ [CHR 0x27]"






section \<open>The operations on Google (utils.py, tools.py)\<close>

text \<open>A document of notes found in Drive.\<close>

record notes_doc =
  note_id :: string
  note_name :: string
  note_link :: string


















section \<open>The contract of the results\<close>


text \<open>Every value that the computation returns satisfies \<open>P\<close>.\<close>

definition returns :: "'a io \<Rightarrow> ('a \<Rightarrow> bool) \<Rightarrow> bool" where
  "returns m P = (\<forall>s a s1 ev. m s = (Inr a, s1, ev) \<longrightarrow> P a)"




section \<open>Properties of the matcher and of the three tiers\<close>

lemma finditer_from_none:
  "rmatch ic r (MState p s []) = [] \<Longrightarrow>
     finditer_from ic r p s = (case s of [] \<Rightarrow> [] | c # cs \<Rightarrow> finditer_from ic r (Some c) cs)"
  by (subst finditer_from.simps) simp

lemma finditer_from_some:
  "rmatch ic r (MState p s []) = st # sts \<Longrightarrow>
     finditer_from ic r p s =
       (if length (rest st) < length s
        then mk_match s st # finditer_from ic r (before st) (rest st)
        else (case s of
                [] \<Rightarrow> [mk_match s st]
              | c # cs \<Rightarrow> mk_match s st # finditer_from ic r (Some c) cs))"
  by (subst finditer_from.simps) simp

lemma finditer_from_elem:
  "m \<in> set (finditer_from ic r p s) \<Longrightarrow>
     \<exists>p' s' st. st \<in> set (rmatch ic r (MState p' s' [])) \<and> m = mk_match s' st"
proof (induction ic r p s rule: finditer_from.induct)
  case (1 ic r p s)
  show ?case
  proof (cases "rmatch ic r (MState p s [])")
    case Nil
    with 1 show ?thesis
      by (auto simp: finditer_from_none split: list.splits)
  next
    case (Cons st sts)
    then have here: "st \<in> set (rmatch ic r (MState p s []))" by simp
    show ?thesis
    proof (cases "m = mk_match s st")
      case True
      with here show ?thesis by blast
    next
      case False
      show ?thesis
      proof (cases "length (rest st) < length s")
        case True
        with \<open>m \<noteq> mk_match s st\<close> 1(4) Cons
        have "m \<in> set (finditer_from ic r (before st) (rest st))"
          by (simp add: finditer_from_some)
        with 1(2) [OF Cons True] show ?thesis .
      next
        case shorter: False
        show ?thesis
        proof (cases s)
          case Nil
          with \<open>m \<noteq> mk_match s st\<close> 1(4) Cons shorter show ?thesis
            by (simp add: finditer_from_some)
        next
          case (Cons c cs)
          with \<open>m \<noteq> mk_match s st\<close> 1(4) \<open>rmatch ic r (MState p s []) = st # sts\<close> shorter
          have "m \<in> set (finditer_from ic r (Some c) cs)"
            by (simp add: finditer_from_some)
          with 1(3) [OF \<open>rmatch ic r (MState p s []) = st # sts\<close> shorter Cons] show ?thesis .
        qed
      qed
    qed
  qed
qed

lemma rep_greedy_reads:
  assumes f: "\<And>st st'. st' \<in> set (f st) \<Longrightarrow> length (rest st') + k \<le> length (rest st)"
  shows "st' \<in> set (rep_greedy f lo hi n st) \<Longrightarrow> length (rest st') + lo * k \<le> length (rest st)"
proof (induction n arbitrary: lo hi st)
  case 0
  then show ?case by (auto split: if_splits)
next
  case (Suc n)
  from Suc.prems consider
      (stop) "st' = st" "lo = 0"
    | (more) st1 where "st1 \<in> set (f st)"
        "st' \<in> set (rep_greedy f (lo - 1) (dec hi) n st1)"
    by (auto simp: progress_def split: if_splits)
  then show ?case
  proof cases
    case stop
    then show ?thesis by simp
  next
    case more
    from f [OF more(1)] have a: "length (rest st1) + k \<le> length (rest st)" .
    from Suc.IH [OF more(2)] have b: "length (rest st') + (lo - 1) * k \<le> length (rest st1)" .
    have "lo * k \<le> (lo - 1) * k + k" by (cases lo) simp_all
    with a b show ?thesis by linarith
  qed
qed

lemma rmatch_reads:
  "st' \<in> set (rmatch ic r st) \<Longrightarrow> length (rest st') + min_len r \<le> length (rest st)"
proof (induction r arbitrary: st st')
  case (Lit c)
  then show ?case by (cases "rest st") (auto simp: step_char_def split: if_splits)
next
  case (Cls p)
  then show ?case by (cases "rest st") (auto simp: step_char_def split: if_splits)
next
  case (Seq a b)
  from Seq.prems obtain m where "m \<in> set (rmatch ic a st)" "st' \<in> set (rmatch ic b m)" by auto
  with Seq.IH(1) [of m st] Seq.IH(2) [of st' m] show ?case by simp
next
  case (Alt a b)
  then show ?case by fastforce
next
  case (Rep lo hi r)
  from Rep.prems have "st' \<in> set (rep_greedy (rmatch ic r) lo hi (length (rest st)) st)" by simp
  from rep_greedy_reads [of "rmatch ic r" "min_len r", OF Rep.IH this] show ?case by simp
next
  case (Grp i r)
  then show ?case by (auto simp: set_group_def)
qed (auto split: if_splits)

lemma source_patterns_read:
  "0 < min_len full_pattern" "0 < min_len partial_pattern" "0 < min_len spoken_pattern"
  by (simp_all add: full_pattern_def partial_pattern_def spoken_pattern_def digit_words_def
        SPOKEN_DIGITS_def seqs_def plus_def star_def str_def)

lemma no_empty_match:
  "0 < min_len r \<Longrightarrow> st \<in> set (rmatch ic r (MState p s [])) \<Longrightarrow> length (rest st) < length s"
  using rmatch_reads [of st ic r "MState p s []"] by simp

lemma full_pattern_group:
  assumes "st \<in> set (rmatch False full_pattern (MState p s []))"
  shows "map_of (groups st) 1 = Some (take (length s - length (rest st)) s)"
  using assms
  by (auto simp: full_pattern_def seqs_def set_group_def consumed_def split: if_splits)


lemma full_match_group:
  assumes "m \<in> set (re_finditer False full_pattern text)"
  shows "group_of m 1 = Some (group0 m)"
proof -
  from assms obtain p s st where
    st: "st \<in> set (rmatch False full_pattern (MState p s []))" and m: "m = mk_match s st"
    unfolding re_finditer_def by (blast dest: finditer_from_elem)
  from full_pattern_group [OF st] m show ?thesis
    by (simp add: group_of_def mk_match_def)
qed

lemma fold_add_full:
  "\<forall>m \<in> set ms. group_of m 1 = Some (group0 m) \<Longrightarrow>
     fold add_full ms ts = ts @ map full_mention ms"
  by (induction ms arbitrary: ts) (simp_all add: add_full_def full_mention_def)

lemma tier1_eq: "tier1 text = map full_mention (re_finditer False full_pattern text)"
proof -
  have "\<forall>m \<in> set (re_finditer False full_pattern text). group_of m 1 = Some (group0 m)"
    by (blast intro: full_match_group)
  from fold_add_full [OF this] show ?thesis
    by (simp add: tier1_def)
qed

lemma has_key_iff: "has_key k ts \<longleftrightarrow> k \<in> set (map key ts)"
  by (auto simp: has_key_def list_ex_iff)

lemma fold_add_partial:
  "\<exists>new. fold (add_partial dp) ms ts = ts @ new
     \<and> list_all (\<lambda>t. confidence t = medium \<and> type t = partial_numeric) new
     \<and> fresh_after ts new"
proof (induction ms arbitrary: ts)
  case Nil
  show ?case by (simp add: fresh_after_def)
next
  case (Cons m ms)
  let ?k = "dp @ ''-'' @ fmt (group_of m 1)"
  let ?t = "\<lparr>key = ?k, confidence = medium, type = partial_numeric\<rparr>"
  show ?case
  proof (cases "has_key ?k ts")
    case True
    then have "add_partial dp m ts = ts" by (simp add: add_partial_def)
    with Cons [of ts] show ?thesis by simp
  next
    case False
    then have step: "add_partial dp m ts = ts @ [?t]" by (simp add: add_partial_def)
    from Cons [of "ts @ [?t]"] obtain new where
      new: "fold (add_partial dp) ms (ts @ [?t]) = (ts @ [?t]) @ new"
        "list_all (\<lambda>t. confidence t = medium \<and> type t = partial_numeric) new"
        "fresh_after (ts @ [?t]) new"
      by blast
    from new(3) False have "fresh_after ts (?t # new)"
      by (auto simp: fresh_after_def has_key_iff)
    with new(1,2) step show ?thesis
      by (intro exI [of _ "?t # new"]) simp
  qed
qed

lemma fold_add_spoken:
  "\<exists>new. fold (add_spoken dp) ms ts = ts @ new
     \<and> list_all (\<lambda>t. confidence t = low \<and> type t = spoken_digits) new
     \<and> fresh_after ts new"
proof (induction ms arbitrary: ts)
  case Nil
  show ?case by (simp add: fresh_after_def)
next
  case (Cons m ms)
  let ?k = "dp @ ''-'' @ spoken_to_digits (group0 m)"
  let ?t = "\<lparr>key = ?k, confidence = low, type = spoken_digits\<rparr>"
  show ?case
  proof (cases "length (spoken_to_digits (group0 m)) \<ge> 3 \<and> \<not> has_key ?k ts")
    case False
    then have "add_spoken dp m ts = ts" by (auto simp: add_spoken_def Let_def)
    with Cons [of ts] show ?thesis by simp
  next
    case True
    then have step: "add_spoken dp m ts = ts @ [?t]" by (simp add: add_spoken_def Let_def)
    from Cons [of "ts @ [?t]"] obtain new where
      new: "fold (add_spoken dp) ms (ts @ [?t]) = (ts @ [?t]) @ new"
        "list_all (\<lambda>t. confidence t = low \<and> type t = spoken_digits) new"
        "fresh_after (ts @ [?t]) new"
      by blast
    from new(3) True have "fresh_after ts (?t # new)"
      by (auto simp: fresh_after_def has_key_iff)
    with new(1,2) step show ?thesis
      by (intro exI [of _ "?t # new"]) simp
  qed
qed

lemma extract_decomp:
  "\<exists>ms ls. extract_ticket_keys text dp = tier1 text @ ms @ ls
     \<and> list_all (\<lambda>t. confidence t = high \<and> type t = full_key) (tier1 text)
     \<and> list_all (\<lambda>t. confidence t = medium \<and> type t = partial_numeric) ms
     \<and> list_all (\<lambda>t. confidence t = low \<and> type t = spoken_digits) ls
     \<and> distinct (map key (ms @ ls))
     \<and> set (map key (tier1 text)) \<inter> set (map key (ms @ ls)) = {}"
proof -
  obtain ms where ms: "tier2 text dp (tier1 text) = tier1 text @ ms"
      "list_all (\<lambda>t. confidence t = medium \<and> type t = partial_numeric) ms"
      "fresh_after (tier1 text) ms"
    unfolding tier2_def using fold_add_partial by blast
  obtain ls where ls: "tier3 text dp (tier1 text @ ms) = (tier1 text @ ms) @ ls"
      "list_all (\<lambda>t. confidence t = low \<and> type t = spoken_digits) ls"
      "fresh_after (tier1 text @ ms) ls"
    unfolding tier3_def using fold_add_spoken by blast
  have h: "list_all (\<lambda>t. confidence t = high \<and> type t = full_key) (tier1 text)"
    by (simp add: tier1_eq list_all_iff full_mention_def)
  from ms(3) ls(3) have "distinct (map key (ms @ ls))"
    and "set (map key (tier1 text)) \<inter> set (map key (ms @ ls)) = {}"
    by (auto simp: fresh_after_def)
  with ms ls h show ?thesis
    by (intro exI [of _ ms] exI [of _ ls]) (simp add: extract_ticket_keys_def)
qed


lemma add_spoken_cases:
  "add_spoken dp m ts =
     (if 3 \<le> length (spoken_to_digits (group0 m)) \<and> \<not> has_key (key (spoken_mention dp m)) ts
      then ts @ [spoken_mention dp m] else ts)"
  by (simp add: add_spoken_def spoken_mention_def Let_def)

lemma fold_add_spoken_origin:
  "\<exists>new. fold (add_spoken dp) ms ts = ts @ new
     \<and> (\<forall>t \<in> set new. \<exists>m \<in> set ms. t = spoken_mention dp m
            \<and> 3 \<le> length (spoken_to_digits (group0 m)) \<and> \<not> has_key (key t) ts)"
proof (induction ms arbitrary: ts)
  case Nil
  show ?case by simp
next
  case (Cons m ms)
  show ?case
  proof (cases "3 \<le> length (spoken_to_digits (group0 m)) \<and> \<not> has_key (key (spoken_mention dp m)) ts")
    case False
    then have "add_spoken dp m ts = ts" by (simp add: add_spoken_cases)
    with Cons [of ts] show ?thesis by auto
  next
    case True
    let ?t = "spoken_mention dp m"
    from True have step: "add_spoken dp m ts = ts @ [?t]" by (simp add: add_spoken_cases)
    from Cons [of "ts @ [?t]"] obtain new where
      new: "fold (add_spoken dp) ms (ts @ [?t]) = (ts @ [?t]) @ new"
        "\<forall>t \<in> set new. \<exists>m \<in> set ms. t = spoken_mention dp m
            \<and> 3 \<le> length (spoken_to_digits (group0 m)) \<and> \<not> has_key (key t) (ts @ [?t])"
      by blast
    have "\<forall>t \<in> set (?t # new). \<exists>m' \<in> set (m # ms). t = spoken_mention dp m'
            \<and> 3 \<le> length (spoken_to_digits (group0 m')) \<and> \<not> has_key (key t) ts"
      using new(2) True by (auto simp: has_key_iff)
    with new(1) step show ?thesis
      by (intro exI [of _ "?t # new"]) simp
  qed
qed

lemma has_key_fold_add_spoken:
  "has_key k ts \<Longrightarrow> has_key k (fold (add_spoken dp) ms ts)"
  by (induction ms arbitrary: ts) (auto simp: add_spoken_cases has_key_iff)

lemma fold_add_spoken_complete:
  "m \<in> set ms \<Longrightarrow> 3 \<le> length (spoken_to_digits (group0 m)) \<Longrightarrow>
     has_key (key (spoken_mention dp m)) (fold (add_spoken dp) ms ts)"
proof (induction ms arbitrary: ts)
  case Nil
  then show ?case by simp
next
  case (Cons a ms)
  show ?case
  proof (cases "m = a")
    case True
    with Cons.prems have "has_key (key (spoken_mention dp m)) (add_spoken dp a ts)"
      by (auto simp: add_spoken_cases has_key_iff)
    then show ?thesis by (simp add: has_key_fold_add_spoken)
  next
    case False
    with Cons show ?thesis by simp
  qed
qed

lemma low_in_extract:
  assumes "t \<in> set (extract_ticket_keys text dp)" and "confidence t = low"
  shows "\<exists>m \<in> set (re_finditer True spoken_pattern text).
           t = spoken_mention dp m \<and> 3 \<le> length (spoken_to_digits (group0 m))
           \<and> \<not> has_key (key t) (tier2 text dp (tier1 text))"
proof -
  obtain ms where ms: "tier2 text dp (tier1 text) = tier1 text @ ms"
      "list_all (\<lambda>t. confidence t = medium \<and> type t = partial_numeric) ms"
    unfolding tier2_def using fold_add_partial by blast
  have "list_all (\<lambda>t. confidence t = high \<and> type t = full_key) (tier1 text)"
    by (simp add: tier1_eq list_all_iff full_mention_def)
  with ms have nolow: "\<forall>t \<in> set (tier2 text dp (tier1 text)). confidence t \<noteq> low"
    by (auto simp: list_all_iff)
  obtain new where new:
    "extract_ticket_keys text dp = tier2 text dp (tier1 text) @ new"
    "\<forall>t \<in> set new. \<exists>m \<in> set (re_finditer True spoken_pattern text). t = spoken_mention dp m
        \<and> 3 \<le> length (spoken_to_digits (group0 m)) \<and> \<not> has_key (key t) (tier2 text dp (tier1 text))"
    unfolding extract_ticket_keys_def tier3_def using fold_add_spoken_origin by blast
  from assms nolow new(1) have "t \<in> set new" by auto
  with new(2) show ?thesis by blast
qed

lemma ex1_full: "re_finditer False full_pattern ''Let's discuss ABC-123 and ABC-123 again''
   = [Mtch ''ABC-123'' [(1, ''ABC-123'')], Mtch ''ABC-123'' [(1, ''ABC-123'')]]"
  by code_simp

lemma ex1_partial: "re_finditer True partial_pattern ''Let's discuss ABC-123 and ABC-123 again'' = []"
  by code_simp

lemma ex1_spoken: "re_finditer True spoken_pattern ''Let's discuss ABC-123 and ABC-123 again'' = []"
  by code_simp

lemma filter_full:
  "filter (\<lambda>t. type t = full_key) (extract_ticket_keys text dp)
     = map full_mention (re_finditer False full_pattern text)"
proof -
  from extract_decomp [of "text" dp] obtain ms ls where
    d: "extract_ticket_keys text dp = tier1 text @ ms @ ls"
      "list_all (\<lambda>t. confidence t = high \<and> type t = full_key) (tier1 text)"
      "list_all (\<lambda>t. confidence t = medium \<and> type t = partial_numeric) ms"
      "list_all (\<lambda>t. confidence t = low \<and> type t = spoken_digits) ls"
    by blast
  from d(2) have "filter (\<lambda>t. type t = full_key) (tier1 text) = tier1 text"
    by (simp add: list_all_iff)
  moreover from d(3) have "filter (\<lambda>t. type t = full_key) ms = []"
    by (auto simp: list_all_iff filter_empty_conv)
  moreover from d(4) have "filter (\<lambda>t. type t = full_key) ls = []"
    by (auto simp: list_all_iff filter_empty_conv)
  ultimately show ?thesis using d(1) by (simp add: tier1_eq)
qed

section \<open>Ticket extraction\<close>

text \<open>
  C1 (as amended). The three tiers run in a fixed order: the result is the full-key
  mentions (high), then the partial-numeric ones (medium), then the spoken-digit ones
  (low). The keys of the medium and low mentions differ from each other and from every
  full key, so a key found by an earlier tier is never emitted again by a later one. The
  full-key tier itself is not deduplicated: a key repeats only among its mentions.
\<close>

theorem extract_first_found_wins:
  "\<exists>ms ls. extract_ticket_keys text dp = tier1 text @ ms @ ls
     \<and> list_all (\<lambda>t. confidence t = high \<and> type t = full_key) (tier1 text)
     \<and> list_all (\<lambda>t. confidence t = medium \<and> type t = partial_numeric) ms
     \<and> list_all (\<lambda>t. confidence t = low \<and> type t = spoken_digits) ls
     \<and> distinct (map key (ms @ ls))
     \<and> set (map key (tier1 text)) \<inter> set (map key (ms @ ls)) = {}"
  by (rule extract_decomp)

text \<open>
  C1 as stated (at most one mention for each key) fails: a full key written twice is
  reported twice.
\<close>

theorem extract_duplicate_counterexample:
  "\<not> distinct (map key (extract_ticket_keys ''WJR-7 is done, WJR-7 is closed'' ''WJR''))"
  by code_simp

text \<open>
  C2. The text \<open>Let's discuss ABC-123 and ABC-123 again\<close> gives exactly two mentions, both
  high-confidence full keys \<open>ABC-123\<close>, whatever the default project. In general the
  full-key mentions of the result are the matches of the full pattern, one mention for
  each match and in the order of the text, repeats included.
\<close>

theorem full_key_tier_keeps_repeats:
  "extract_ticket_keys ''Let's discuss ABC-123 and ABC-123 again'' dp
     = [\<lparr>key = ''ABC-123'', confidence = high, type = full_key\<rparr>,
        \<lparr>key = ''ABC-123'', confidence = high, type = full_key\<rparr>]
   \<and> filter (\<lambda>t. type t = full_key) (extract_ticket_keys text dp)
     = map full_mention (re_finditer False full_pattern text)"
  by (simp add: filter_full)
    (simp add: extract_ticket_keys_def tier1_def tier2_def tier3_def ex1_full ex1_partial ex1_spoken
       add_full_def group_of_def)

text \<open>
  C4. Every low-confidence mention of the result comes from a match of the spoken
  pattern whose words give at least three digits; its key is the default project, a
  dash and those digits, and no ticket of the earlier tiers has that key. A match
  that gives fewer than three digits leaves the tickets as they are. The text
  \<open>issue four five six\<close> with project \<open>WJR\<close> gives the one low-confidence mention
  \<open>WJR-456\<close>; \<open>issue four five\<close> gives none.
\<close>

theorem spoken_digits_need_three:
  "(t \<in> set (extract_ticket_keys text dp) \<and> confidence t = low \<longrightarrow>
      (\<exists>m \<in> set (re_finditer True spoken_pattern text).
          t = spoken_mention dp m \<and> 3 \<le> length (spoken_to_digits (group0 m))
          \<and> \<not> has_key (key t) (tier2 text dp (tier1 text))))
   \<and> (length (spoken_to_digits (group0 m')) < 3 \<longrightarrow> add_spoken dp m' ts = ts)
   \<and> extract_ticket_keys ''issue four five six'' ''WJR''
        = [\<lparr>key = ''WJR-456'', confidence = low, type = spoken_digits\<rparr>]
   \<and> extract_ticket_keys ''issue four five'' ''WJR'' = []"
proof (intro conjI impI)
  assume "t \<in> set (extract_ticket_keys text dp) \<and> confidence t = low"
  then show "\<exists>m \<in> set (re_finditer True spoken_pattern text).
          t = spoken_mention dp m \<and> 3 \<le> length (spoken_to_digits (group0 m))
          \<and> \<not> has_key (key t) (tier2 text dp (tier1 text))"
    using low_in_extract by blast
next
  assume "length (spoken_to_digits (group0 m')) < 3"
  then show "add_spoken dp m' ts = ts" by (simp add: add_spoken_cases)
next
  show "extract_ticket_keys ''issue four five six'' ''WJR''
        = [\<lparr>key = ''WJR-456'', confidence = low, type = spoken_digits\<rparr>]"
    by code_simp
next
  show "extract_ticket_keys ''issue four five'' ''WJR'' = []"
    by code_simp
qed

theorem spoken_digits_need_three_witness:
  "\<lparr>key = ''WJR-456'', confidence = low, type = spoken_digits\<rparr>
      \<in> set (extract_ticket_keys ''issue four five six'' ''WJR'')
   \<and> (\<exists>m \<in> set (re_finditer True spoken_pattern ''issue four five six'').
          \<lparr>key = ''WJR-456'', confidence = low, type = spoken_digits\<rparr> = spoken_mention ''WJR'' m
          \<and> 3 \<le> length (spoken_to_digits (group0 m)))
   \<and> length (spoken_to_digits (group0 (Mtch ''four five'' []))) < 3
   \<and> add_spoken ''WJR'' (Mtch ''four five'' []) [] = []"
proof -
  let ?t = "\<lparr>key = ''WJR-456'', confidence = low, type = spoken_digits\<rparr>"
  have mem: "?t \<in> set (extract_ticket_keys ''issue four five six'' ''WJR'')"
    by code_simp
  have short: "length (spoken_to_digits (group0 (Mtch ''four five'' []))) < 3"
    by code_simp
  from spoken_digits_need_three
    [of ?t "''issue four five six''" "''WJR''" "Mtch ''four five'' []" "[]"] mem short
  show ?thesis by auto
qed

section \<open>Speaker segmentation\<close>

lemma step_char_keeps:
  "st' \<in> set (step_char ok st) \<Longrightarrow> groups st' = groups st \<and> (\<exists>u. rest st = u @ rest st')"
  by (cases "rest st") (auto simp: step_char_def split: if_splits)

lemma rep_char_keeps:
  "st' \<in> set (rep_greedy (step_char ok) lo hi n st) \<Longrightarrow>
     groups st' = groups st \<and> (\<exists>u. rest st = u @ rest st')"
proof (induction n arbitrary: lo hi st)
  case 0
  then show ?case by (auto split: if_splits)
next
  case (Suc n)
  from Suc.prems consider
      (stop) "st' = st"
    | (more) st1 where "st1 \<in> set (step_char ok st)"
        "st' \<in> set (rep_greedy (step_char ok) (lo - 1) (dec hi) n st1)"
    by (auto simp: progress_def split: if_splits)
  then show ?case
  proof cases
    case stop
    then show ?thesis by simp
  next
    case more
    from step_char_keeps [OF more(1)]
    have "groups st1 = groups st" "\<exists>u. rest st = u @ rest st1" by auto
    moreover from Suc.IH [OF more(2)]
    have "groups st' = groups st1" "\<exists>u. rest st1 = u @ rest st'" by auto
    ultimately show ?thesis by (metis append.assoc)
  qed
qed

lemma speaker_match_name:
  assumes "st \<in> set (rmatch False speaker_pattern (MState None s []))"
  shows "\<exists>x u. map_of (groups st) 1 = Some (x # u) \<and> is_upper x"
  using assms
  by (auto simp: speaker_pattern_def seqs_def plus_def star_def step_char_def cls_ok_def
        set_group_def consumed_def
        dest!: rep_char_keeps split: list.splits if_splits)

lemma strip_nonempty: "\<not> is_space x \<Longrightarrow> strip (x # u) \<noteq> []"
  by (simp add: strip_def dropWhile_eq_Nil_conv)

lemma upper_not_space: "is_upper x \<Longrightarrow> \<not> is_space x"
  by (auto simp: is_upper_def is_space_def)

lemma classify_named: "named (classify line)"
proof (cases "re_match False speaker_pattern (strip line)")
  case None
  then show ?thesis by (simp add: classify_def named_def)
next
  case (Some m)
  then obtain st where
    st: "st \<in> set (rmatch False speaker_pattern (MState None (strip line) []))"
    and m: "m = mk_match (strip line) st"
    by (auto simp: re_match_def split: list.splits)
  from speaker_match_name [OF st] obtain x u where
    "map_of (groups st) 1 = Some (x # u)" "is_upper x" by blast
  with m have "strip (fmt (group_of m 1)) \<noteq> []"
    by (simp add: group_of_def mk_match_def fmt_def strip_nonempty upper_not_space)
  with Some show ?thesis by (simp add: classify_def named_def)
qed

lemma speaker_step_kind: "speaker_step line st = kind_step (classify line) st"
  by (cases st; cases "re_match False speaker_pattern (strip line)")
     (auto simp: speaker_step_def classify_def truthy_def Let_def split: option.splits)

lemma fold_speaker_step:
  "fold speaker_step ls st = fold kind_step (map classify ls) st"
  by (induction ls arbitrary: st) (simp_all add: speaker_step_kind)

lemma keys_dict_append [simp]: "map fst (dict_append k x d) = map fst d"
  by (induction d) (auto simp: dict_append_def)

lemma fst_image_dict_append [simp]: "fst ` set (dict_append k x d) = fst ` set d"
  using keys_dict_append [of k x d] by (metis set_map)

lemma map_of_dict_append:
  "map_of (dict_append k x d) n =
     (if n = k then map_option (\<lambda>v. v @ [x]) (map_of d n) else map_of d n)"
  by (induction d) (auto simp: dict_append_def)

lemma map_of_snoc:
  "map_of (d @ [(k, v)]) n = (case map_of d n of Some w \<Rightarrow> Some w | None \<Rightarrow> if n = k then Some v else None)"
  by (induction d) auto

lemma kind_step_inv:
  "step_inv st \<Longrightarrow> named k \<Longrightarrow> step_inv (kind_step k st)"
  by (cases st; cases k)
     (auto simp: step_inv_def named_def Let_def split: option.splits)

lemma fold_step_inv:
  "step_inv st \<Longrightarrow> list_all named ks \<Longrightarrow> step_inv (fold kind_step ks st)"
  by (induction ks arbitrary: st) (simp_all add: kind_step_inv)

lemma map_of_None_keys: "map_of sp n = None \<longleftrightarrow> n \<notin> set (map fst sp)"
  by (simp add: map_of_eq_None_iff)





lemma map_of_speaker_line:
  assumes "kind_step (SpeakerLine s c) (sp, cur) = (sp', cur')"
  shows "cur' = Some s"
    and "map_of sp' n =
      (if n = s
       then Some ((case map_of sp s of Some us \<Rightarrow> us | None \<Rightarrow> []) @ (if c \<noteq> [] then [c] else []))
       else map_of sp n)"
proof -
  from assms show "cur' = Some s" by (auto simp: Let_def)
  show "map_of sp' n =
      (if n = s
       then Some ((case map_of sp s of Some us \<Rightarrow> us | None \<Rightarrow> []) @ (if c \<noteq> [] then [c] else []))
       else map_of sp n)"
  proof (cases "s \<in> set (map fst sp)")
    case True
    then obtain us where us: "map_of sp s = Some us"
      by (metis map_of_None_keys not_Some_eq)
    from True assms have "sp' = (if c \<noteq> [] then dict_append s c sp else sp)"
      by (auto simp: Let_def)
    with us show ?thesis by (simp add: map_of_dict_append)
  next
    case False
    then have none: "map_of sp s = None" by (simp add: map_of_None_keys)
    from False assms have "sp' = (if c \<noteq> [] then dict_append s c (sp @ [(s, [])]) else sp @ [(s, [])])"
      by (auto simp: Let_def)
    with none show ?thesis
      by (auto simp: map_of_dict_append map_add_def split: option.splits)
  qed
qed

lemma map_of_continuation:
  assumes "kind_step (Continuation u) (sp, cur) = (sp', cur')" and "step_inv (sp, cur)"
  shows "cur' = cur"
    and "map_of sp' n = (if cur = Some n then map_option (\<lambda>v. v @ [u]) (map_of sp n) else map_of sp n)"
  using assms
  by (auto simp: step_inv_def map_of_dict_append split: option.splits if_splits)


lemma expected_speaker_line:
  assumes "kind_step (SpeakerLine s c) (sp, cur) = (sp', cur')" and "step_inv (sp, cur)"
  shows "expected n sp' cur' ks = expected n sp cur (SpeakerLine s c # ks)"
proof (cases "n = s")
  case True
  with map_of_speaker_line [OF assms(1)] show ?thesis
    by (cases "map_of sp s") (simp_all add: expected_def turn_def)
next
  case False
  with map_of_speaker_line [OF assms(1)] have "map_of sp' n = map_of sp n" "cur' \<noteq> Some n"
    by auto
  with False show ?thesis
    by (cases "map_of sp n") (simp_all add: expected_def)
qed

lemma expected_continuation:
  assumes "kind_step (Continuation u) (sp, cur) = (sp', cur')" and "step_inv (sp, cur)"
  shows "expected n sp' cur' ks = expected n sp cur (Continuation u # ks)"
proof (cases "cur = Some n")
  case True
  with assms(2) obtain us where "map_of sp n = Some us"
    by (cases "map_of sp n") (auto simp: step_inv_def map_of_None_keys)
  with True map_of_continuation [OF assms] show ?thesis
    by (simp add: expected_def)
next
  case False
  with map_of_continuation [OF assms] show ?thesis
    by (cases "map_of sp n") (simp_all add: expected_def)
qed

lemma fold_kind_step:
  "step_inv (sp, cur) \<Longrightarrow> list_all named ks \<Longrightarrow>
     map_of (fst (fold kind_step ks (sp, cur))) n = expected n sp cur ks"
proof (induction ks arbitrary: sp cur)
  case Nil
  then show ?case by (cases "map_of sp n") (simp_all add: expected_def)
next
  case (Cons k ks)
  from Cons.prems have inv': "step_inv (kind_step k (sp, cur))" and nm: "list_all named ks"
    by (simp_all add: kind_step_inv)
  obtain sp' cur' where st': "kind_step k (sp, cur) = (sp', cur')" by (cases "kind_step k (sp, cur)")
  from Cons.IH [of sp' cur'] inv' nm st'
  have IH: "map_of (fst (fold kind_step ks (sp', cur'))) n = expected n sp' cur' ks" by simp
  have "expected n sp' cur' ks = expected n sp cur (k # ks)"
  proof (cases k)
    case (SpeakerLine s c)
    with st' Cons.prems(1) show ?thesis by (simp add: expected_speaker_line)
  next
    case (Continuation u)
    with st' Cons.prems(1) show ?thesis by (simp add: expected_continuation)
  next
    case Blank
    with st' show ?thesis by (cases "map_of sp' n") (auto simp: expected_def)
  qed
  with IH st' show ?case by simp
qed

lemma no_introduction: "introductions n ks = 0 \<Longrightarrow> all_turns n ks = []"
  by (induction n ks rule: all_turns.induct) (auto split: if_splits)

lemma one_introduction: "introductions n ks = 1 \<Longrightarrow> first_turn n ks = Some (all_turns n ks)"
  by (induction n ks rule: all_turns.induct) (auto simp: no_introduction split: if_splits)

lemma parse_speakers_eq:
  "map_of (parse_speakers text) n =
     (if 0 < introductions n (kinds text) then Some (all_turns n (kinds text)) else None)"
proof -
  have "list_all named (kinds text)"
    by (simp add: kinds_def list_all_iff classify_named)
  moreover have "step_inv ([], None)" by (simp add: step_inv_def)
  ultimately have "map_of (fst (fold kind_step (kinds text) ([], None))) n = expected n [] None (kinds text)"
    by (rule fold_kind_step [rotated])
  then show ?thesis
    by (simp add: parse_speakers_def fold_speaker_step kinds_def expected_def)
qed

lemma parse_speakers_distinct: "distinct (map fst (parse_speakers text))"
proof -
  have "list_all named (kinds text)"
    by (simp add: kinds_def list_all_iff classify_named)
  moreover have "step_inv ([], None)" by (simp add: step_inv_def)
  ultimately have "step_inv (fold kind_step (kinds text) ([], None))"
    by (rule fold_step_inv [rotated])
  then show ?thesis
    by (simp add: parse_speakers_def fold_speaker_step kinds_def step_inv_def)
qed


text \<open>
  C5 (as amended). \<open>parse_speakers\<close> maps a name to a list exactly when some line
  introduces it as a speaker, and the list is made of the speaker's turns in the order
  of the transcript: for each line \<open>Name: rest\<close> of that speaker, the rest when it is
  not empty, then the trimmed non-blank lines that follow up to the next speaker line.
  Blank lines and the lines before the first speaker line go nowhere. A speaker
  introduced by one line only gets that line's turn, as the specification says; the
  keys of the result are distinct. The example of the specification is evaluated.
\<close>

theorem parse_speakers_turns:
  "map_of (parse_speakers text) n =
     (if 0 < introductions n (kinds text) then Some (all_turns n (kinds text)) else None)
   \<and> (introductions n (kinds text) = 1 \<longrightarrow>
        map_of (parse_speakers text) n = first_turn n (kinds text))
   \<and> distinct (map fst (parse_speakers text))
   \<and> parse_speakers ''Alice: fixed the bug\<newline>still testing\<newline>Bob: reviewed PR''
        = [(''Alice'', [''fixed the bug'', ''still testing'']), (''Bob'', [''reviewed PR''])]"
proof (intro conjI impI)
  show "map_of (parse_speakers text) n =
     (if 0 < introductions n (kinds text) then Some (all_turns n (kinds text)) else None)"
    by (rule parse_speakers_eq)
next
  assume "introductions n (kinds text) = 1"
  then show "map_of (parse_speakers text) n = first_turn n (kinds text)"
    by (simp add: parse_speakers_eq one_introduction)
next
  show "distinct (map fst (parse_speakers text))"
    by (rule parse_speakers_distinct)
next
  show "parse_speakers ''Alice: fixed the bug\<newline>still testing\<newline>Bob: reviewed PR''
        = [(''Alice'', [''fixed the bug'', ''still testing'']), (''Bob'', [''reviewed PR''])]"
    by code_simp
qed

theorem parse_speakers_turns_witness:
  "0 < introductions ''Alice'' (kinds ''Alice: fixed the bug\<newline>Bob: reviewed PR\<newline>Alice: still testing'')
   \<and> map_of (parse_speakers ''Alice: fixed the bug\<newline>Bob: reviewed PR\<newline>Alice: still testing'') ''Alice''
        = Some (all_turns ''Alice'' (kinds ''Alice: fixed the bug\<newline>Bob: reviewed PR\<newline>Alice: still testing''))
   \<and> introductions ''Bob'' (kinds ''Alice: fixed the bug\<newline>Bob: reviewed PR\<newline>Alice: still testing'') = 1
   \<and> map_of (parse_speakers ''Alice: fixed the bug\<newline>Bob: reviewed PR\<newline>Alice: still testing'') ''Bob''
        = first_turn ''Bob'' (kinds ''Alice: fixed the bug\<newline>Bob: reviewed PR\<newline>Alice: still testing'')"
proof -
  let ?T = "''Alice: fixed the bug\<newline>Bob: reviewed PR\<newline>Alice: still testing''"
  have a: "0 < introductions ''Alice'' (kinds ?T)" by code_simp
  have b: "introductions ''Bob'' (kinds ?T) = 1" by code_simp
  from parse_speakers_turns [of ?T "''Alice''"]
  have "map_of (parse_speakers ?T) ''Alice'' =
     (if 0 < introductions ''Alice'' (kinds ?T) then Some (all_turns ''Alice'' (kinds ?T)) else None)"
    by (rule conjunct1)
  with a have c: "map_of (parse_speakers ?T) ''Alice'' = Some (all_turns ''Alice'' (kinds ?T))"
    by (simp only: if_True)
  from parse_speakers_turns [of ?T "''Bob''"]
  have "introductions ''Bob'' (kinds ?T) = 1 \<longrightarrow>
        map_of (parse_speakers ?T) ''Bob'' = first_turn ''Bob'' (kinds ?T)"
    by blast
  with b have d: "map_of (parse_speakers ?T) ''Bob'' = first_turn ''Bob'' (kinds ?T)"
    by blast
  from a b c d show ?thesis by blast
qed

text \<open>
  C5 as stated gives a speaker the turn of the line that introduces it. A speaker who
  speaks again has more: in the transcript below Alice has two utterances, her first
  turn has one.
\<close>

theorem parse_speakers_repeat_counterexample:
  "map_of (parse_speakers ''Alice: fixed the bug\<newline>Bob: reviewed PR\<newline>Alice: still testing'') ''Alice''
     = Some [''fixed the bug'', ''still testing'']
   \<and> first_turn ''Alice'' (kinds ''Alice: fixed the bug\<newline>Bob: reviewed PR\<newline>Alice: still testing'')
     = Some [''fixed the bug'']"
  by code_simp

section \<open>Grouping the utterances by ticket\<close>

lemma split_on_no_sep: "sep \<notin> set s \<Longrightarrow> split_on sep s = [s]"
  by (induction s) auto

lemma split_on_append: "sep \<notin> set p \<Longrightarrow> split_on sep (p @ sep # r) = p # split_on sep r"
  by (induction p) auto

lemma digit_not_dash: "is_digit c \<Longrightarrow> c \<noteq> CHR ''-''"
  by (auto simp: is_digit_def code_def)

lemma digits_no_dash: "list_all is_digit d \<Longrightarrow> CHR ''-'' \<notin> set d"
  by (auto simp: list_all_iff dest: digit_not_dash)

lemma one_dashE:
  assumes "one_dash k"
  obtains p d where "k = p @ CHR ''-'' # d" "CHR ''-'' \<notin> set p" "d \<noteq> []" "list_all is_digit d"
proof -
  from assms obtain n where n: "n \<le> length k" "CHR ''-'' \<notin> set (take n k)" "drop n k \<noteq> []"
    "hd (drop n k) = CHR ''-''" "tl (drop n k) \<noteq> []" "list_all is_digit (tl (drop n k))"
    unfolding one_dash_def by blast
  from n(3,4) have "drop n k = CHR ''-'' # tl (drop n k)" by (cases "drop n k") auto
  then have "k = take n k @ CHR ''-'' # tl (drop n k)"
    by (metis append_take_drop_id)
  with n that show ?thesis by blast
qed

lemma one_dashI:
  "CHR ''-'' \<notin> set p \<Longrightarrow> d \<noteq> [] \<Longrightarrow> list_all is_digit d \<Longrightarrow> one_dash (p @ CHR ''-'' # d)"
  unfolding one_dash_def by (rule exI [of _ "length p"]) simp

lemma second_field_one_dash:
  assumes "one_dash k"
  shows "second_field k = Inr (numeric_suffix k)"
proof -
  from assms obtain p d where k: "k = p @ CHR ''-'' # d" "CHR ''-'' \<notin> set p" "d \<noteq> []"
    "list_all is_digit d" by (rule one_dashE)
  then have "split_on CHR ''-'' k = [p, d]"
    by (simp add: split_on_append split_on_no_sep digits_no_dash)
  then have a: "second_field k = Inr d" by (simp add: second_field_def)
  have "\<not> is_digit CHR ''-''" by (simp add: is_digit_def code_def)
  with k(4) have "takeWhile is_digit (rev d @ CHR ''-'' # rev p) = rev d"
    by (simp add: takeWhile_append2 list_all_iff takeWhile_tail)
  with k(1) have "numeric_suffix k = d" by (simp add: numeric_suffix_def)
  with a show ?thesis by simp
qed

lemma any_field_in_eq:
  "second_field k = Inr f \<Longrightarrow> any_field_in k lines = Inr (list_ex (py_in f) lines)"
  by (induction lines) simp_all

lemma relevant_from_eq:
  "second_field k = Inr f \<Longrightarrow>
     relevant_from k all_lines lines
       = Inr (filter (\<lambda>line. py_in k line \<or> list_ex (py_in f) all_lines) lines)"
  by (induction lines) (simp_all add: any_field_in_eq)

lemma relevant_lines_one_dash:
  "one_dash k \<Longrightarrow> relevant_lines k lines = Inr (relevant_spec k lines)"
  by (simp add: relevant_lines_def relevant_spec_def relevant_from_eq second_field_one_dash)

lemma dict_set_new: "k \<notin> set (map fst d) \<Longrightarrow> dict_set k v d = d @ [(k, v)]"
  by (induction d) auto

lemma map_of_dict_set: "map_of (dict_set k v d) k' = (if k' = k then Some v else map_of d k')"
  by (induction d) auto

lemma speakers_spec_Cons:
  "speakers_spec k ((s, ls) # sp) =
     (if relevant_spec k ls \<noteq> [] then [(s, relevant_spec k ls)] else []) @ speakers_spec k sp"
  by (simp add: speakers_spec_def)

lemma context_speakers_eq:
  "one_dash k \<Longrightarrow> distinct (map fst sp) \<Longrightarrow> set (map fst acc) \<inter> set (map fst sp) = {} \<Longrightarrow>
     context_speakers k sp acc = Inr (acc @ speakers_spec k sp)"
proof (induction sp arbitrary: acc)
  case Nil
  then show ?case by (simp add: speakers_spec_def)
next
  case (Cons e sp)
  obtain s ls where e: "e = (s, ls)" by (cases e)
  let ?acc' = "if relevant_spec k ls \<noteq> [] then dict_set s (relevant_spec k ls) acc else acc"
  from Cons.prems e have new: "s \<notin> set (map fst acc)" by auto
  then have acc': "?acc' = acc @ (if relevant_spec k ls \<noteq> [] then [(s, relevant_spec k ls)] else [])"
    by (simp add: dict_set_new)
  from Cons.prems e have "distinct (map fst sp)" and "set (map fst ?acc') \<inter> set (map fst sp) = {}"
    by (auto simp: acc')
  with Cons.IH [of ?acc'] Cons.prems(1)
  have "context_speakers k sp ?acc' = Inr (?acc' @ speakers_spec k sp)" by blast
  with e Cons.prems(1) show ?case
    by (simp add: relevant_lines_one_dash speakers_spec_Cons acc')
qed

lemma group_by_ticket_eq:
  assumes "\<forall>t \<in> set ts. one_dash (key t)" and "distinct (map fst sp)"
  shows "\<exists>cs. group_by_ticket ts sp acc = Inr cs \<and>
           (\<forall>k. (k \<in> key ` set ts \<longrightarrow>
                   (\<exists>c. map_of cs k = Some c \<and> ctx_speakers c = speakers_spec k sp)) \<and>
                (k \<notin> key ` set ts \<longrightarrow> map_of cs k = map_of acc k))"
  using assms(1)
proof (induction ts arbitrary: acc)
  case Nil
  then show ?case by simp
next
  case (Cons t ts)
  let ?c = "\<lparr>ctx_confidence = confidence t, ctx_type = type t,
              ctx_speakers = speakers_spec (key t) sp, ctx_mentions = []\<rparr>"
  from Cons.prems assms(2) have cs: "context_speakers (key t) sp [] = Inr (speakers_spec (key t) sp)"
    using context_speakers_eq [of "key t" sp "[]"] by simp
  from Cons.prems have "\<forall>t \<in> set ts. one_dash (key t)" by simp
  from Cons.IH [OF this, of "dict_set (key t) ?c acc"] obtain cs' where
    r: "group_by_ticket ts sp (dict_set (key t) ?c acc) = Inr cs'"
    and m: "\<And>k. (k \<in> key ` set ts \<longrightarrow>
                   (\<exists>c. map_of cs' k = Some c \<and> ctx_speakers c = speakers_spec k sp)) \<and>
                (k \<notin> key ` set ts \<longrightarrow> map_of cs' k = map_of (dict_set (key t) ?c acc) k)"
    by blast
  have "group_by_ticket (t # ts) sp acc = Inr cs'" using cs r by simp
  moreover have "(k \<in> key ` set (t # ts) \<longrightarrow>
                   (\<exists>c. map_of cs' k = Some c \<and> ctx_speakers c = speakers_spec k sp)) \<and>
                (k \<notin> key ` set (t # ts) \<longrightarrow> map_of cs' k = map_of acc k)" for k
    using m [of k] by (auto simp: map_of_dict_set)
  ultimately show ?case by blast
qed

lemma step_char_run:
  "st' \<in> set (step_char ok st) \<Longrightarrow> \<exists>x. rest st = x # rest st' \<and> ok x \<and> groups st' = groups st"
  by (cases "rest st") (auto simp: step_char_def split: if_splits)

lemma rep_char_run:
  "st' \<in> set (rep_greedy (step_char ok) lo hi n st) \<Longrightarrow>
     \<exists>u. rest st = u @ rest st' \<and> list_all ok u \<and> lo \<le> length u \<and> groups st' = groups st"
proof (induction n arbitrary: lo hi st)
  case 0
  then show ?case by (auto split: if_splits)
next
  case (Suc n)
  from Suc.prems consider
      (stop) "st' = st" "lo = 0"
    | (more) st1 where "st1 \<in> set (step_char ok st)"
        "st' \<in> set (rep_greedy (step_char ok) (lo - 1) (dec hi) n st1)"
    by (auto simp: progress_def split: if_splits)
  then show ?case
  proof cases
    case stop
    then show ?thesis by simp
  next
    case more
    from step_char_run [OF more(1)] obtain x where
      x: "rest st = x # rest st1" "ok x" "groups st1 = groups st" by blast
    from Suc.IH [OF more(2)] obtain u where
      u: "rest st1 = u @ rest st'" "list_all ok u" "lo - 1 \<le> length u" "groups st' = groups st1"
      by blast
    from x u have "rest st = (x # u) @ rest st'" "list_all ok (x # u)" "lo \<le> length (x # u)"
      "groups st' = groups st" by auto
    then show ?thesis by blast
  qed
qed

lemma cls_ok_digit: "cls_ok ic is_digit x = is_digit x"
  by (auto simp: cls_ok_def lower_char_def upper_char_def is_digit_def is_upper_def is_lower_def code_def)

lemma cls_ok_plain: "cls_ok False p x = p x"
  by (simp add: cls_ok_def)

lemma upper_no_dash: "list_all is_upper u \<Longrightarrow> CHR ''-'' \<notin> set u"
  by (auto simp: list_all_iff is_upper_def code_def)

lemma SeqE:
  assumes "st' \<in> set (rmatch ic (Seq a b) st)"
  obtains m where "m \<in> set (rmatch ic a st)" "st' \<in> set (rmatch ic b m)"
  using assms by auto

lemma GrpE:
  assumes "st' \<in> set (rmatch ic (Grp i r) st)"
  obtains m where "m \<in> set (rmatch ic r st)" "st' = set_group i st m"
  using assms by auto

lemma WordBD: "st' \<in> set (rmatch ic WordB st) \<Longrightarrow> st' = st"
  by (auto split: if_splits)

lemma EpsD: "st' \<in> set (rmatch ic Eps st) \<Longrightarrow> st' = st"
  by simp

lemma LitD:
  "st' \<in> set (rmatch ic (Lit c) st) \<Longrightarrow>
     \<exists>x. rest st = x # rest st' \<and> lit_ok ic c x \<and> groups st' = groups st"
  by (simp add: step_char_run)

lemma RepClsD:
  "st' \<in> set (rmatch ic (Rep lo hi (Cls p)) st) \<Longrightarrow>
     \<exists>u. rest st = u @ rest st' \<and> list_all (cls_ok ic p) u \<and> lo \<le> length u \<and> groups st' = groups st"
  by (simp add: rep_char_run)

lemma full_pattern_unfold:
  "full_pattern =
     Seq WordB (Seq (Grp 1 (Seq (Rep 2 (Some 10) (Cls is_upper))
                             (Seq (Lit CHR ''-'') (Seq (Rep 1 None (Cls is_digit)) Eps))))
               (Seq WordB Eps))"
  by (simp add: full_pattern_def seqs_def plus_def)

lemma full_pattern_shape:
  assumes "st \<in> set (rmatch False full_pattern (MState p s []))"
  shows "one_dash (take (length s - length (rest st)) s)"
proof -
  let ?st0 = "MState p s []"
  from assms [unfolded full_pattern_unfold] obtain a where
    a: "a \<in> set (rmatch False WordB ?st0)"
    and r1: "st \<in> set (rmatch False (Seq (Grp 1 (Seq (Rep 2 (Some 10) (Cls is_upper))
                             (Seq (Lit CHR ''-'') (Seq (Rep 1 None (Cls is_digit)) Eps))))
               (Seq WordB Eps)) a)"
    by (rule SeqE)
  from a have a0: "a = ?st0" by (rule WordBD)
  from r1 obtain b where
    b: "b \<in> set (rmatch False (Grp 1 (Seq (Rep 2 (Some 10) (Cls is_upper))
                             (Seq (Lit CHR ''-'') (Seq (Rep 1 None (Cls is_digit)) Eps)))) a)"
    and r2: "st \<in> set (rmatch False (Seq WordB Eps) b)"
    by (rule SeqE)
  from r2 obtain c where "c \<in> set (rmatch False WordB b)" "st \<in> set (rmatch False Eps c)"
    by (rule SeqE)
  then have stb: "st = b" by (auto dest: WordBD EpsD simp del: rmatch.simps)
  from b obtain m where
    m: "m \<in> set (rmatch False (Seq (Rep 2 (Some 10) (Cls is_upper))
                             (Seq (Lit CHR ''-'') (Seq (Rep 1 None (Cls is_digit)) Eps))) a)"
    and bm: "b = set_group 1 a m"
    by (rule GrpE)
  from m obtain st1 where
    st1: "st1 \<in> set (rmatch False (Rep 2 (Some 10) (Cls is_upper)) a)"
    and r3: "m \<in> set (rmatch False (Seq (Lit CHR ''-'') (Seq (Rep 1 None (Cls is_digit)) Eps)) st1)"
    by (rule SeqE)
  from r3 obtain st2 where
    st2: "st2 \<in> set (rmatch False (Lit CHR ''-'') st1)"
    and r4: "m \<in> set (rmatch False (Seq (Rep 1 None (Cls is_digit)) Eps) st2)"
    by (rule SeqE)
  from r4 obtain st3 where
    st3: "st3 \<in> set (rmatch False (Rep 1 None (Cls is_digit)) st2)"
    and "m \<in> set (rmatch False Eps st3)"
    by (rule SeqE)
  then have m3: "m = st3" by (auto dest: EpsD simp del: rmatch.simps)
  from RepClsD [OF st1] a0 obtain u where u: "s = u @ rest st1" "list_all (cls_ok False is_upper) u"
    by auto
  from LitD [OF st2] obtain x where x: "rest st1 = x # rest st2" "lit_ok False CHR ''-'' x"
    by blast
  from RepClsD [OF st3] obtain d where d: "rest st2 = d @ rest st3"
    "list_all (cls_ok False is_digit) d" "1 \<le> length d" by blast
  from x(2) have xd: "x = CHR ''-''" by (simp add: lit_ok_def)
  from stb bm m3 have "rest st = rest st3" by (simp add: set_group_def)
  with u x d xd have "take (length s - length (rest st)) s = u @ CHR ''-'' # d" by simp
  moreover from u(2) have "CHR ''-'' \<notin> set u" by (simp add: cls_ok_plain [abs_def] upper_no_dash)
  moreover from d(2) have "list_all is_digit d" by (simp add: cls_ok_plain [abs_def])
  moreover from d(3) have "d \<noteq> []" by auto
  ultimately show ?thesis by (simp add: one_dashI)
qed

lemma partial_pattern_unfold:
  "partial_pattern =
     Seq (alts [str ''ticket'', str ''issue'', str ''bug'', str ''story''])
       (Seq (Rep 1 None (Cls is_space)) (Seq (Grp 1 (Rep 1 None (Cls is_digit))) Eps))"
  by (simp add: partial_pattern_def seqs_def plus_def)

lemma partial_pattern_group:
  assumes "st \<in> set (rmatch True partial_pattern (MState p s []))"
  shows "\<exists>d. map_of (groups st) 1 = Some d \<and> d \<noteq> [] \<and> list_all is_digit d"
proof -
  from assms [unfolded partial_pattern_unfold] obtain a where
    r1: "st \<in> set (rmatch True (Seq (Rep 1 None (Cls is_space)) (Seq (Grp 1 (Rep 1 None (Cls is_digit))) Eps)) a)"
    by (rule SeqE)
  from r1 obtain st2 where
    r2: "st \<in> set (rmatch True (Seq (Grp 1 (Rep 1 None (Cls is_digit))) Eps) st2)"
    by (rule SeqE)
  from r2 obtain g where
    g: "g \<in> set (rmatch True (Grp 1 (Rep 1 None (Cls is_digit))) st2)"
    and "st \<in> set (rmatch True Eps g)"
    by (rule SeqE)
  then have stg: "st = g" by (auto dest: EpsD simp del: rmatch.simps)
  from g obtain st3 where
    st3: "st3 \<in> set (rmatch True (Rep 1 None (Cls is_digit)) st2)"
    and gs: "g = set_group 1 st2 st3"
    by (rule GrpE)
  from RepClsD [OF st3] obtain d where d: "rest st2 = d @ rest st3"
    "list_all (cls_ok True is_digit) d" "1 \<le> length d" by blast
  from d(2) have "list_all is_digit d" by (simp add: cls_ok_digit [abs_def])
  moreover from d(3) have "d \<noteq> []" by auto
  moreover from stg gs d(1) have "map_of (groups st) 1 = Some d"
    by (simp add: set_group_def consumed_def)
  ultimately show ?thesis by blast
qed

lemma tier1_one_dash:
  assumes "t \<in> set (tier1 text)"
  shows "one_dash (key t)"
proof -
  from assms obtain m where m: "m \<in> set (re_finditer False full_pattern text)" "t = full_mention m"
    by (auto simp: tier1_eq)
  from m(1) obtain p s st where
    st: "st \<in> set (rmatch False full_pattern (MState p s []))" and mm: "m = mk_match s st"
    unfolding re_finditer_def by (blast dest: finditer_from_elem)
  from full_pattern_shape [OF st] m(2) mm show ?thesis
    by (simp add: full_mention_def mk_match_def)
qed

lemma partial_match_digits:
  assumes "m \<in> set (re_finditer True partial_pattern text)"
  shows "fmt (group_of m 1) \<noteq> [] \<and> list_all is_digit (fmt (group_of m 1))"
proof -
  from assms obtain p s st where
    st: "st \<in> set (rmatch True partial_pattern (MState p s []))" and mm: "m = mk_match s st"
    unfolding re_finditer_def by (blast dest: finditer_from_elem)
  from partial_pattern_group [OF st] mm show ?thesis
    by (auto simp: group_of_def mk_match_def fmt_def)
qed

lemma fold_add_partial_keys:
  "t \<in> set (fold (add_partial dp) ms ts) \<Longrightarrow>
     t \<in> set ts \<or> (\<exists>m \<in> set ms. key t = dp @ ''-'' @ fmt (group_of m 1))"
  by (induction ms arbitrary: ts) (fastforce simp: add_partial_def Let_def split: if_splits)+

lemma table_digits: "map_of SPOKEN_DIGITS w = Some d \<Longrightarrow> list_all is_digit d"
  by (auto simp: SPOKEN_DIGITS_def is_digit_def code_def split: if_splits)

lemma word_digits:
  "list_all is_digit (case map_of SPOKEN_DIGITS w of None \<Rightarrow> [] | Some d \<Rightarrow> d)"
  by (cases "map_of SPOKEN_DIGITS w") (simp_all add: table_digits)

lemma spoken_to_digits_digits: "list_all is_digit (spoken_to_digits g)"
  unfolding spoken_to_digits_def list_all_iff using word_digits
  by (auto simp: list_all_iff)

lemma extracted_one_dash:
  assumes "CHR ''-'' \<notin> set dp" and "t \<in> set (extract_ticket_keys text dp)"
  shows "one_dash (key t)"
proof -
  from low_in_extract [of t "text" dp] assms(2) consider
      (low) m where "t = spoken_mention dp m" "3 \<le> length (spoken_to_digits (group0 m))"
    | (early) "t \<in> set (tier2 text dp (tier1 text))"
  proof -
    obtain new where new:
      "extract_ticket_keys text dp = tier2 text dp (tier1 text) @ new"
      "\<forall>t \<in> set new. \<exists>m \<in> set (re_finditer True spoken_pattern text). t = spoken_mention dp m
        \<and> 3 \<le> length (spoken_to_digits (group0 m)) \<and> \<not> has_key (key t) (tier2 text dp (tier1 text))"
      unfolding extract_ticket_keys_def tier3_def using fold_add_spoken_origin by blast
    assume a: "\<And>m. t = spoken_mention dp m \<Longrightarrow> 3 \<le> length (spoken_to_digits (group0 m)) \<Longrightarrow> thesis"
      and b: "t \<in> set (tier2 text dp (tier1 text)) \<Longrightarrow> thesis"
    from assms(2) new(1) have "t \<in> set (tier2 text dp (tier1 text)) \<or> t \<in> set new" by auto
    with new(2) a b show thesis by blast
  qed
  then show ?thesis
  proof cases
    case low
    then have "spoken_to_digits (group0 m) \<noteq> []" by auto
    with low(1) assms(1) show ?thesis
      using one_dashI [of dp "spoken_to_digits (group0 m)"]
      by (simp add: spoken_mention_def spoken_to_digits_digits)
  next
    case early
    from fold_add_partial_keys [OF early [unfolded tier2_def]] show ?thesis
    proof
      assume "t \<in> set (tier1 text)"
      then show ?thesis by (rule tier1_one_dash)
    next
      assume "\<exists>m \<in> set (re_finditer True partial_pattern text). key t = dp @ ''-'' @ fmt (group_of m 1)"
      then obtain m where m: "m \<in> set (re_finditer True partial_pattern text)"
        "key t = dp @ ''-'' @ fmt (group_of m 1)" by blast
      from partial_match_digits [OF m(1)] m(2) assms(1) show ?thesis
        using one_dashI [of dp "fmt (group_of m 1)"] by simp
    qed
  qed
qed

lemma contexts_of_extracted:
  assumes "CHR ''-'' \<notin> set dp" and "t \<in> set (extract_ticket_keys text dp)"
  shows "context_speakers (key t) (parse_speakers text') [] = Inr (speakers_spec (key t) (parse_speakers text'))"
    and "\<exists>cs c. group_by_ticket (extract_ticket_keys text dp) (parse_speakers text') [] = Inr cs
           \<and> map_of cs (key t) = Some c
           \<and> ctx_speakers c = speakers_spec (key t) (parse_speakers text')"
proof -
  from assms have od: "one_dash (key t)" by (rule extracted_one_dash)
  from context_speakers_eq [OF od parse_speakers_distinct, of "[]" text']
  show "context_speakers (key t) (parse_speakers text') [] = Inr (speakers_spec (key t) (parse_speakers text'))"
    by simp
  from assms(1) have "\<forall>t \<in> set (extract_ticket_keys text dp). one_dash (key t)"
    by (blast intro: extracted_one_dash)
  from group_by_ticket_eq [OF this parse_speakers_distinct, of text' "[]"] assms(2)
  show "\<exists>cs c. group_by_ticket (extract_ticket_keys text dp) (parse_speakers text') [] = Inr cs
           \<and> map_of cs (key t) = Some c
           \<and> ctx_speakers c = speakers_spec (key t) (parse_speakers text')"
    by blast
qed

text \<open>
  C3 (as amended). Let the default project have no dash, so that every extracted key
  is a part without a dash, one dash and digits (lemma \<open>extracted_one_dash\<close>). Then for
  every extracted mention the speakers of its context are computed without error and
  are those of the specification: an utterance of a speaker is relevant when it
  contains the key, or when the numeric suffix of the key occurs in some line of that
  speaker's whole list, in which case all the speaker's utterances are relevant; a
  speaker is in the context only with at least one relevant utterance. The context
  stored under the key in \<open>ticket_contexts\<close> has these speakers.
\<close>

theorem context_by_key_or_suffix:
  "CHR ''-'' \<notin> set dp \<Longrightarrow> t \<in> set (extract_ticket_keys text dp) \<Longrightarrow>
     context_speakers (key t) (parse_speakers text) []
       = Inr (speakers_spec (key t) (parse_speakers text))
     \<and> (\<exists>cs c. group_by_ticket (extract_ticket_keys text dp) (parse_speakers text) [] = Inr cs
           \<and> map_of cs (key t) = Some c
           \<and> ctx_speakers c = speakers_spec (key t) (parse_speakers text))"
  using contexts_of_extracted [of dp t "text" "text"] by blast

theorem context_by_key_or_suffix_witness:
  "CHR ''-'' \<notin> set ''WJR''
   \<and> \<lparr>key = ''WJR-99'', confidence = medium, type = partial_numeric\<rparr>
       \<in> set (extract_ticket_keys
                ''Alice: Working on PROJ-42, almost done\<newline>more 99\<newline>Bob: ticket 99 is blocked'' ''WJR'')
   \<and> context_speakers ''WJR-99''
        (parse_speakers ''Alice: Working on PROJ-42, almost done\<newline>more 99\<newline>Bob: ticket 99 is blocked'') []
       = Inr (speakers_spec ''WJR-99''
               (parse_speakers ''Alice: Working on PROJ-42, almost done\<newline>more 99\<newline>Bob: ticket 99 is blocked''))
   \<and> speakers_spec ''WJR-99''
        (parse_speakers ''Alice: Working on PROJ-42, almost done\<newline>more 99\<newline>Bob: ticket 99 is blocked'')
       = [(''Alice'', [''Working on PROJ-42, almost done'', ''more 99'']),
          (''Bob'', [''ticket 99 is blocked''])]"
proof -
  let ?T = "''Alice: Working on PROJ-42, almost done\<newline>more 99\<newline>Bob: ticket 99 is blocked''"
  let ?t = "\<lparr>key = ''WJR-99'', confidence = medium, type = partial_numeric\<rparr>"
  have a: "CHR ''-'' \<notin> set ''WJR''" by simp
  have b: "?t \<in> set (extract_ticket_keys ?T ''WJR'')" by code_simp
  have c: "speakers_spec ''WJR-99'' (parse_speakers ?T)
       = [(''Alice'', [''Working on PROJ-42, almost done'', ''more 99'']),
          (''Bob'', [''ticket 99 is blocked''])]" by code_simp
  from context_by_key_or_suffix [OF a b]
  have "context_speakers (key ?t) (parse_speakers ?T) [] = Inr (speakers_spec (key ?t) (parse_speakers ?T))"
    by (rule conjunct1)
  then have d: "context_speakers ''WJR-99'' (parse_speakers ?T) []
       = Inr (speakers_spec ''WJR-99'' (parse_speakers ?T))" by simp
  from a b c d show ?thesis by blast
qed

text \<open>
  C3 as stated fails for a default project with a dash. With project \<open>A-B\<close> the
  mention \<open>A-B-45\<close> is extracted; the source tests the second field of the key, \<open>B\<close>,
  and not its numeric suffix \<open>45\<close>: Bob, who never names the ticket, is in the context,
  and Carol, who says 45, is not.
\<close>

theorem context_dash_project_counterexample:
  "\<lparr>key = ''A-B-45'', confidence = medium, type = partial_numeric\<rparr>
      \<in> set (extract_ticket_keys ''Carol: ticket 45 is done\<newline>Bob: Big day'' ''A-B'')
   \<and> context_speakers ''A-B-45'' (parse_speakers ''Carol: ticket 45 is done\<newline>Bob: Big day'') []
        = Inr [(''Bob'', [''Big day''])]
   \<and> speakers_spec ''A-B-45'' (parse_speakers ''Carol: ticket 45 is done\<newline>Bob: Big day'')
        = [(''Carol'', [''ticket 45 is done''])]"
  by code_simp

section \<open>Digit words followed by more letters\<close>

lemma table_disj:
  "(w, d) \<in> set SPOKEN_DIGITS \<Longrightarrow>
     (w = ''zero'' \<and> d = ''0'') \<or> (w = ''one'' \<and> d = ''1'') \<or> (w = ''two'' \<and> d = ''2'')
     \<or> (w = ''three'' \<and> d = ''3'') \<or> (w = ''four'' \<and> d = ''4'') \<or> (w = ''five'' \<and> d = ''5'')
     \<or> (w = ''six'' \<and> d = ''6'') \<or> (w = ''seven'' \<and> d = ''7'') \<or> (w = ''eight'' \<and> d = ''8'')
     \<or> (w = ''nine'' \<and> d = ''9'')"
  by (simp add: SPOKEN_DIGITS_def)

lemma table_lookup:
  "map_of SPOKEN_DIGITS ''zero'' = Some ''0''" "map_of SPOKEN_DIGITS ''one'' = Some ''1''"
  "map_of SPOKEN_DIGITS ''two'' = Some ''2''" "map_of SPOKEN_DIGITS ''three'' = Some ''3''"
  "map_of SPOKEN_DIGITS ''four'' = Some ''4''" "map_of SPOKEN_DIGITS ''five'' = Some ''5''"
  "map_of SPOKEN_DIGITS ''six'' = Some ''6''" "map_of SPOKEN_DIGITS ''seven'' = Some ''7''"
  "map_of SPOKEN_DIGITS ''eight'' = Some ''8''" "map_of SPOKEN_DIGITS ''nine'' = Some ''9''"
  by code_simp+

lemma table_lower:
  "list_all is_lower ''zero''" "list_all is_lower ''one''" "list_all is_lower ''two''"
  "list_all is_lower ''three''" "list_all is_lower ''four''" "list_all is_lower ''five''"
  "list_all is_lower ''six''" "list_all is_lower ''seven''" "list_all is_lower ''eight''"
  "list_all is_lower ''nine''"
  by code_simp+

lemma table_entry:
  assumes "(w, d) \<in> set SPOKEN_DIGITS"
  shows "w \<noteq> [] \<and> list_all is_lower w \<and> length d = 1 \<and> map_of SPOKEN_DIGITS w = Some d"
  using table_disj [OF assms]
  by (elim disjE conjE) (simp_all only: table_lookup table_lower list.distinct not_False_eq_True
        list.size length_Cons One_nat_def simp_thms)

lemma cls_ok_space: "cls_ok ic is_space x = is_space x"
  by (auto simp: cls_ok_def lower_char_def upper_char_def is_space_def is_upper_def is_lower_def code_def)

lemma lit_step:
  "rmatch ic (Lit c) (MState p (x # r) g) = (if lit_ok ic c x then [MState (Some x) r g] else [])"
  by (simp add: step_char_def)

lemma lit_lower: "is_lower c \<Longrightarrow> is_lower x \<Longrightarrow> lit_ok ic c x \<longleftrightarrow> x = c"
  by (auto simp: lit_ok_def lower_char_def is_upper_def is_lower_def)

lemma str_Cons: "rmatch ic (str (c # w)) st = concat (map (rmatch ic (str w)) (rmatch ic (Lit c) st))"
  by (simp add: str_def seqs_def)

lemma str_Nil: "rmatch ic (str []) st = [st]"
  by (simp add: str_def seqs_def)

lemma str_reads:
  "rmatch ic (str w) (MState p (w @ r) g) = [MState (if w = [] then p else Some (last w)) r g]"
proof (induction w arbitrary: p)
  case Nil
  show ?case by (simp add: str_Nil)
next
  case (Cons c w)
  have "rmatch ic (str (c # w)) (MState p ((c # w) @ r) g)
          = rmatch ic (str w) (MState (Some c) (w @ r) g)"
    by (simp add: str_Cons lit_step lit_ok_def del: rmatch.simps)
  with Cons.IH [of "Some c"] show ?case by simp
qed

lemma str_fails:
  "list_all is_lower a \<Longrightarrow> list_all is_lower b \<Longrightarrow> \<not> is_prefix a b \<Longrightarrow> \<not> is_prefix b a \<Longrightarrow>
     rmatch ic (str a) (MState p (b @ r) g) = []"
proof (induction a arbitrary: b p)
  case Nil
  then show ?case by simp
next
  case (Cons c a)
  from Cons.prems(4) obtain x b' where b: "b = x # b'" by (cases b) auto
  show ?case
  proof (cases "x = c")
    case True
    with Cons.prems b have "rmatch ic (str a) (MState (Some c) (b' @ r) g) = []"
      by (intro Cons.IH) auto
    with True b show ?thesis
      by (simp add: str_Cons lit_step lit_ok_def del: rmatch.simps)
  next
    case False
    with Cons.prems(1,2) b have "\<not> lit_ok ic c x" by (simp add: lit_lower)
    with b show ?thesis by (simp add: str_Cons lit_step del: rmatch.simps)
  qed
qed

lemma alts_concat:
  "rs \<noteq> [] \<Longrightarrow> rmatch ic (alts rs) st = concat (map (\<lambda>r. rmatch ic r st) rs)"
proof (induction rs rule: alts.induct)
  case (3 r v va)
  then show ?case by simp
qed simp_all

lemma table_apart:
  "list_all (\<lambda>a. list_all (\<lambda>b. a = b \<or> (\<not> is_prefix a b \<and> \<not> is_prefix b a)) (map fst SPOKEN_DIGITS))
     (map fst SPOKEN_DIGITS)"
  by code_simp

lemma table_distinct: "distinct (map fst SPOKEN_DIGITS)"
  by code_simp

lemma concat_one:
  "distinct (map fst T) \<Longrightarrow> (w, d) \<in> set T \<Longrightarrow>
     (\<And>kv. kv \<in> set T \<Longrightarrow> f kv = (if fst kv = w then [S] else [])) \<Longrightarrow>
     concat (map f T) = [S]"
proof (induction T)
  case Nil
  then show ?case by simp
next
  case (Cons kv T)
  show ?case
  proof (cases "fst kv = w")
    case True
    from Cons.prems(1) have "fst kv \<notin> fst ` set T" by simp
    with True have "\<forall>kv' \<in> set T. fst kv' \<noteq> w" by (metis imageI)
    with Cons.prems(3) have "\<forall>kv' \<in> set T. f kv' = []" by simp
    then have "concat (map f T) = []" by simp
    with True Cons.prems(3) [of kv] show ?thesis by simp
  next
    case False
    with Cons.prems(2) have "(w, d) \<in> set T" by auto
    with Cons.IH Cons.prems have "concat (map f T) = [S]" by auto
    with False Cons.prems(3) [of kv] show ?thesis by simp
  qed
qed

lemma digit_word_reads:
  assumes "(w, d) \<in> set SPOKEN_DIGITS"
  shows "rmatch True digit_words (MState p (w @ r) g) = [MState (Some (last w)) r g]"
proof -
  let ?f = "\<lambda>kv. rmatch True (str (fst kv)) (MState p (w @ r) g)"
  have ne: "map (\<lambda>kv. str (fst kv)) SPOKEN_DIGITS \<noteq> []" by (simp add: SPOKEN_DIGITS_def)
  have w: "w \<noteq> []" "list_all is_lower w" using table_entry [OF assms] by simp_all
  have each: "?f kv = (if fst kv = w then [MState (Some (last w)) r g] else [])"
    if kv: "kv \<in> set SPOKEN_DIGITS" for kv
  proof (cases "fst kv = w")
    case True
    with w(1) show ?thesis by (simp add: str_reads del: rmatch.simps)
  next
    case False
    from kv assms table_apart False
    have apart: "\<not> is_prefix (fst kv) w \<and> \<not> is_prefix w (fst kv)"
      by (force simp: list_all_iff)
    from kv have "list_all is_lower (fst kv)"
      using table_entry [of "fst kv" "snd kv"] by simp
    with apart w(2) False show ?thesis by (simp add: str_fails del: rmatch.simps)
  qed
  have "rmatch True digit_words (MState p (w @ r) g) = concat (map ?f SPOKEN_DIGITS)"
    unfolding digit_words_def by (simp add: alts_concat [OF ne] comp_def del: rmatch.simps)
  also have "\<dots> = [MState (Some (last w)) r g]"
    by (rule concat_one [OF table_distinct assms each])
  finally show ?thesis .
qed

lemma space_is_space: "is_space CHR '' ''"
  by (simp add: is_space_def code_def)

lemma lower_not_space: "is_lower c \<Longrightarrow> \<not> is_space c"
  by (auto simp: is_lower_def is_space_def)

lemma alpha_not_space: "is_alpha c \<Longrightarrow> \<not> is_space c"
  by (auto simp: is_alpha_def is_upper_def is_lower_def is_space_def)

lemma alpha_not_digit: "is_alpha c \<Longrightarrow> \<not> is_digit c"
  by (auto simp: is_alpha_def is_upper_def is_lower_def is_digit_def)

lemma alpha_not_dash: "is_alpha c \<Longrightarrow> c \<noteq> CHR ''-''"
  by (auto simp: is_alpha_def is_upper_def is_lower_def code_def)

lemma space_reads:
  "\<not> is_space c \<Longrightarrow>
     rmatch True (Rep 1 None (Cls is_space)) (MState p (CHR '' '' # c # r) g)
       = [MState (Some CHR '' '') (c # r) g]"
  by (simp add: step_char_def cls_ok_space space_is_space progress_def dec_def)

lemma space_fails:
  assumes "rest st = [] \<or> \<not> is_space (hd (rest st))"
  shows "rmatch True (Rep 1 None (Cls is_space)) st = []"
proof (rule ccontr)
  assume "rmatch True (Rep 1 None (Cls is_space)) st \<noteq> []"
  then obtain st' where "st' \<in> set (rmatch True (Rep 1 None (Cls is_space)) st)"
    by (cases "rmatch True (Rep 1 None (Cls is_space)) st") auto
  from RepClsD [OF this] obtain u where
    u: "rest st = u @ rest st'" "list_all (cls_ok True is_space) u" "1 \<le> length u" by blast
  from u(3) obtain x u' where "u = x # u'" by (cases u) auto
  with u assms show False by (simp add: cls_ok_space)
qed

lemma star_stop: "f st = [] \<Longrightarrow> rep_greedy f 0 None n st = [st]"
  by (cases n) (simp_all add: progress_def)

lemma star_step:
  "f st = [st1] \<Longrightarrow> length (rest st1) < length (rest st) \<Longrightarrow> 0 < n \<Longrightarrow>
     rep_greedy f 0 None n st = rep_greedy f 0 None (n - 1) st1 @ [st]"
  by (cases n) (simp_all add: progress_def dec_def)

lemma seq_single: "rmatch ic a st = [st1] \<Longrightarrow> rmatch ic (Seq a b) st = rmatch ic b st1"
  by simp

lemma seq_none: "rmatch ic a st = [] \<Longrightarrow> rmatch ic (Seq a b) st = []"
  by simp

lemma seq_eps: "rmatch ic (Seq a Eps) st = rmatch ic a st"
  by simp

lemma grp_single: "rmatch ic r st = [st1] \<Longrightarrow> rmatch ic (Grp i r) st = [set_group i st st1]"
  by simp

text \<open>One more digit word of a run: white space and the word.\<close>

lemma next_word_reads:
  assumes "(w, d) \<in> set SPOKEN_DIGITS"
  shows "rmatch True (Seq (Rep 1 None (Cls is_space)) (Seq (Grp 2 digit_words) Eps))
           (MState p (CHR '' '' # w @ r) g)
         = [MState (Some (last w)) r ((2, w) # g)]"
proof -
  from table_entry [OF assms] obtain c w' where w: "w = c # w'" "is_lower c"
    by (cases w) auto
  let ?st1 = "MState (Some CHR '' '') (w @ r) g"
  have sp: "rmatch True (Rep 1 None (Cls is_space)) (MState p (CHR '' '' # w @ r) g) = [?st1]"
    using space_reads [of c p "w' @ r" g] w by (simp add: lower_not_space del: rmatch.simps)
  have "rmatch True (Grp 2 digit_words) ?st1 = [set_group 2 ?st1 (MState (Some (last w)) r g)]"
    by (rule grp_single) (rule digit_word_reads [OF assms])
  also have "set_group 2 ?st1 (MState (Some (last w)) r g) = MState (Some (last w)) r ((2, w) # g)"
    by (simp add: set_group_def consumed_def)
  finally show ?thesis
    by (simp only: seq_single [OF sp] seq_eps)
qed

lemma next_word_fails:
  assumes "rest st = [] \<or> \<not> is_space (hd (rest st))"
  shows "rmatch True (Seq (Rep 1 None (Cls is_space)) (Seq (Grp 2 digit_words) Eps)) st = []"
  by (rule seq_none) (rule space_fails [OF assms])

lemma spoken_pattern_unfold:
  "spoken_pattern =
     Seq WordB (Seq (Grp 1 digit_words)
       (Seq (Rep 0 None (Seq (Rep 1 None (Cls is_space)) (Seq (Grp 2 digit_words) Eps))) Eps))"
  by (simp add: spoken_pattern_def seqs_def plus_def star_def)

text \<open>The match of the spoken pattern on a run of three digit words followed by a tail
  that does not start with white space.\<close>

lemma spoken_run_match:
  assumes w1: "(w1, d1) \<in> set SPOKEN_DIGITS" and w2: "(w2, d2) \<in> set SPOKEN_DIGITS"
    and w3: "(w3, d3) \<in> set SPOKEN_DIGITS"
    and tail: "tail = [] \<or> \<not> is_space (hd tail)"
  shows "\<exists>sts. rmatch True spoken_pattern (MState None (w1 @ CHR '' '' # w2 @ CHR '' '' # w3 @ tail) [])
           = MState (Some (last w3)) tail [(2, w3), (2, w2), (1, w1)] # sts"
proof -
  let ?X = "Seq (Rep 1 None (Cls is_space)) (Seq (Grp 2 digit_words) Eps)"
  let ?r2 = "CHR '' '' # w3 @ tail"
  let ?r1 = "CHR '' '' # w2 @ ?r2"
  let ?st0 = "MState None (w1 @ ?r1) []"
  let ?s1 = "MState (Some (last w1)) ?r1 [(1, w1)]"
  let ?s2 = "MState (Some (last w2)) ?r2 [(2, w2), (1, w1)]"
  let ?s3 = "MState (Some (last w3)) tail [(2, w3), (2, w2), (1, w1)]"
  from table_entry [OF w1] obtain c w' where c: "w1 = c # w'" "is_lower c" by (cases w1) auto
  then have "is_word c" by (simp add: is_word_def is_alpha_def)
  with c have wb: "rmatch True WordB ?st0 = [?st0]"
    by (simp add: word_before_def word_after_def)
  have "rmatch True (Grp 1 digit_words) ?st0 = [set_group 1 ?st0 (MState (Some (last w1)) ?r1 [])]"
    by (rule grp_single) (rule digit_word_reads [OF w1])
  also have "set_group 1 ?st0 (MState (Some (last w1)) ?r1 []) = ?s1"
    by (simp add: set_group_def consumed_def)
  finally have g1: "rmatch True (Grp 1 digit_words) ?st0 = [?s1]" .
  have x1: "rmatch True ?X ?s1 = [?s2]" by (rule next_word_reads [OF w2])
  have x2: "rmatch True ?X ?s2 = [?s3]" by (rule next_word_reads [OF w3])
  have x3: "rmatch True ?X ?s3 = []" by (rule next_word_fails) (use tail in simp)
  have "rep_greedy (rmatch True ?X) 0 None (length ?r1) ?s1
          = rep_greedy (rmatch True ?X) 0 None (length ?r1 - 1) ?s2 @ [?s1]"
    by (rule star_step [where f = "rmatch True ?X", OF x1]) simp_all
  also have "rep_greedy (rmatch True ?X) 0 None (length ?r1 - 1) ?s2
          = rep_greedy (rmatch True ?X) 0 None (length ?r1 - 1 - 1) ?s3 @ [?s2]"
    by (rule star_step [where f = "rmatch True ?X", OF x2]) simp_all
  also have "rep_greedy (rmatch True ?X) 0 None (length ?r1 - 1 - 1) ?s3 = [?s3]"
    by (rule star_stop [where f = "rmatch True ?X", OF x3])
  finally have star: "rmatch True (Rep 0 None ?X) ?s1 = [?s3, ?s2, ?s1]"
    by (simp del: rmatch.simps add: rmatch.simps(6))
  have "rmatch True spoken_pattern ?st0 = [?s3, ?s2, ?s1]"
    unfolding spoken_pattern_unfold
    by (simp only: seq_single [OF wb] seq_single [OF g1] seq_eps star)
  then show ?thesis by blast
qed

text \<open>No match of the spoken pattern starts inside a word.\<close>

lemma spoken_inside_word:
  "is_word c0 \<Longrightarrow> list_all is_word tail \<Longrightarrow> finditer_from True spoken_pattern (Some c0) tail = []"
proof (induction tail arbitrary: c0)
  case Nil
  have "rmatch True spoken_pattern (MState (Some c0) [] []) = []"
  proof (rule ccontr)
    assume "rmatch True spoken_pattern (MState (Some c0) [] []) \<noteq> []"
    then obtain st where "st \<in> set (rmatch True spoken_pattern (MState (Some c0) [] []))"
      by (cases "rmatch True spoken_pattern (MState (Some c0) [] [])") auto
    from no_empty_match [OF source_patterns_read(3) this] show False by simp
  qed
  then show ?case by (simp add: finditer_from_none)
next
  case (Cons c cs)
  from Cons.prems have "rmatch True WordB (MState (Some c0) (c # cs) []) = []"
    by (simp add: word_before_def word_after_def)
  then have "rmatch True spoken_pattern (MState (Some c0) (c # cs) []) = []"
    unfolding spoken_pattern_unfold by (rule seq_none)
  with Cons show ?case by (simp add: finditer_from_none)
qed

lemma rmatch_emptyI: "(\<And>st'. st' \<in> set (rmatch ic r st) \<Longrightarrow> False) \<Longrightarrow> rmatch ic r st = []"
  by (cases "rmatch ic r st") auto

lemma no_full_match:
  "CHR ''-'' \<notin> set s \<Longrightarrow> finditer_from False full_pattern p s = []"
proof (induction s arbitrary: p)
  case Nil
  have "rmatch False full_pattern (MState p [] []) = []"
    by (rule rmatch_emptyI) (use no_empty_match [OF source_patterns_read(1)] in fastforce)
  then show ?case by (simp add: finditer_from_none)
next
  case (Cons c cs)
  have "rmatch False full_pattern (MState p (c # cs) []) = []"
  proof (rule rmatch_emptyI)
    fix st' assume "st' \<in> set (rmatch False full_pattern (MState p (c # cs) []))"
    from full_pattern_shape [OF this] obtain a d where
      "take (length (c # cs) - length (rest st')) (c # cs) = a @ CHR ''-'' # d"
      by (rule one_dashE)
    then have "CHR ''-'' \<in> set (take (length (c # cs) - length (rest st')) (c # cs))" by simp
    then have "CHR ''-'' \<in> set (c # cs)" by (rule in_set_takeD)
    with Cons.prems show False by simp
  qed
  with Cons show ?case by (simp add: finditer_from_none)
qed

lemma rep_greedy_suffix:
  assumes f: "\<And>st st'. st' \<in> set (f st) \<Longrightarrow> \<exists>u. rest st = u @ rest st'"
  shows "st' \<in> set (rep_greedy f lo hi n st) \<Longrightarrow> \<exists>u. rest st = u @ rest st'"
proof (induction n arbitrary: lo hi st)
  case 0
  then show ?case by (auto split: if_splits)
next
  case (Suc n)
  from Suc.prems consider
      (stop) "st' = st" "lo = 0"
    | (more) st1 where "st1 \<in> set (f st)"
        "st' \<in> set (rep_greedy f (lo - 1) (dec hi) n st1)"
    by (auto simp: progress_def split: if_splits)
  then show ?case
  proof cases
    case stop
    then show ?thesis by simp
  next
    case more
    from f [OF more(1)] obtain u where "rest st = u @ rest st1" by blast
    moreover from Suc.IH [OF more(2)] obtain v where "rest st1 = v @ rest st'" by blast
    ultimately have "rest st = (u @ v) @ rest st'" by simp
    then show ?thesis by blast
  qed
qed

lemma rmatch_suffix:
  "st' \<in> set (rmatch ic r st) \<Longrightarrow> \<exists>u. rest st = u @ rest st'"
proof (induction r arbitrary: st st')
  case (Lit c)
  then show ?case by (cases "rest st") (auto simp: step_char_def split: if_splits)
next
  case (Cls p)
  then show ?case by (cases "rest st") (auto simp: step_char_def split: if_splits)
next
  case (Seq a b)
  from Seq.prems obtain m where "m \<in> set (rmatch ic a st)" "st' \<in> set (rmatch ic b m)" by auto
  with Seq.IH(1) [of m st] Seq.IH(2) [of st' m] obtain u v where
    "rest st = u @ rest m" "rest m = v @ rest st'" by blast
  then have "rest st = (u @ v) @ rest st'" by simp
  then show ?case by blast
next
  case (Alt a b)
  then show ?case by fastforce
next
  case (Rep lo hi r)
  from Rep.prems have "st' \<in> set (rep_greedy (rmatch ic r) lo hi (length (rest st)) st)" by simp
  from rep_greedy_suffix [of "rmatch ic r", OF Rep.IH this] show ?case by simp
next
  case (Grp i r)
  then show ?case by (auto simp: set_group_def)
qed (auto split: if_splits)

lemma partial_needs_digit:
  assumes "st \<in> set (rmatch True partial_pattern (MState p s []))"
  shows "\<exists>c \<in> set s. is_digit c"
proof -
  from assms [unfolded partial_pattern_unfold] obtain a where
    a: "a \<in> set (rmatch True (alts [str ''ticket'', str ''issue'', str ''bug'', str ''story'']) (MState p s []))"
    and r1: "st \<in> set (rmatch True (Seq (Rep 1 None (Cls is_space)) (Seq (Grp 1 (Rep 1 None (Cls is_digit))) Eps)) a)"
    by (rule SeqE)
  from r1 obtain st2 where
    s2: "st2 \<in> set (rmatch True (Rep 1 None (Cls is_space)) a)"
    and r2: "st \<in> set (rmatch True (Seq (Grp 1 (Rep 1 None (Cls is_digit))) Eps) st2)"
    by (rule SeqE)
  from r2 obtain g where
    g: "g \<in> set (rmatch True (Grp 1 (Rep 1 None (Cls is_digit))) st2)"
    by (rule SeqE)
  from g obtain st3 where
    st3: "st3 \<in> set (rmatch True (Rep 1 None (Cls is_digit)) st2)"
    by (rule GrpE)
  from RepClsD [OF st3] obtain d where d: "rest st2 = d @ rest st3"
    "list_all (cls_ok True is_digit) d" "1 \<le> length d" by blast
  from d(3) obtain x d' where x: "d = x # d'" by (cases d) auto
  with d(2) have dig: "is_digit x" by (simp add: cls_ok_digit)
  from rmatch_suffix [OF a] obtain u0 where u0: "s = u0 @ rest a" by auto
  from rmatch_suffix [OF s2] obtain u1 where u1: "rest a = u1 @ rest st2" by blast
  from u0 u1 d(1) x have "x \<in> set s" by simp
  with dig show ?thesis by blast
qed

lemma no_partial_match:
  "\<forall>c \<in> set s. \<not> is_digit c \<Longrightarrow> finditer_from True partial_pattern p s = []"
proof (induction s arbitrary: p)
  case Nil
  have "rmatch True partial_pattern (MState p [] []) = []"
    by (rule rmatch_emptyI) (use partial_needs_digit in fastforce)
  then show ?case by (simp add: finditer_from_none)
next
  case (Cons c cs)
  have "rmatch True partial_pattern (MState p (c # cs) []) = []"
    by (rule rmatch_emptyI) (use partial_needs_digit Cons.prems in blast)
  with Cons show ?case by (simp add: finditer_from_none)
qed

lemma split_ws_word:
  "list_all (\<lambda>c. \<not> is_space c) w \<Longrightarrow> split_ws_acc acc (w @ r) = split_ws_acc (rev w @ acc) r"
  by (induction w arbitrary: acc) simp_all

lemma lower_lower: "list_all is_lower w \<Longrightarrow> lower w = w"
  by (induction w) (auto simp: lower_def lower_char_def is_lower_def is_upper_def)

lemma spoken_run_digits:
  assumes w1: "(w1, d1) \<in> set SPOKEN_DIGITS" and w2: "(w2, d2) \<in> set SPOKEN_DIGITS"
    and w3: "(w3, d3) \<in> set SPOKEN_DIGITS"
  shows "spoken_to_digits (w1 @ CHR '' '' # w2 @ CHR '' '' # w3) = d1 @ d2 @ d3"
proof -
  have ns: "list_all (\<lambda>c. \<not> is_space c) w" "w \<noteq> []" "lower w = w" "map_of SPOKEN_DIGITS w = Some d"
    if "(w, d) \<in> set SPOKEN_DIGITS" for w d
    using table_entry [OF that] by (auto simp: list_all_iff lower_not_space lower_lower)
  have "split_ws (w1 @ CHR '' '' # w2 @ CHR '' '' # w3) = [w1, w2, w3]"
    using split_ws_word [OF ns(1) [OF w1], of "[]" "CHR '' '' # w2 @ CHR '' '' # w3"]
      split_ws_word [OF ns(1) [OF w2], of "[]" "CHR '' '' # w3"]
      split_ws_word [OF ns(1) [OF w3], of "[]" "[]"]
      ns(2) [OF w1] ns(2) [OF w2] ns(2) [OF w3]
    by (simp add: split_ws_def space_is_space)
  then show ?thesis
    by (simp add: spoken_to_digits_def ns(3,4) [OF w1] ns(3,4) [OF w2] ns(3,4) [OF w3])
qed

text \<open>
  C10. The spoken pattern has no \<open>\b\<close> after a digit word, so a digit word that is
  followed by more letters is read all the same: at any position, whatever text follows
  it, the alternatives of the digit words read the word and stop behind it. For any
  three digit words of the table separated by single spaces, with any letters after the
  third one, the scan finds one match, the three words without the letters, and
  \<open>extract_ticket_keys\<close> returns the one low-confidence mention whose key is the default
  project, a dash and the three digits. For \<open>one two nineteen\<close> and \<open>WJR\<close> the match
  is \<open>one two nine\<close> and the key is \<open>WJR-129\<close>.
\<close>

theorem spoken_prefix_of_longer_word:
  assumes w1: "(w1, d1) \<in> set SPOKEN_DIGITS" and w2: "(w2, d2) \<in> set SPOKEN_DIGITS"
    and w3: "(w3, d3) \<in> set SPOKEN_DIGITS"
    and tail: "list_all is_alpha tail"
  shows "rmatch True digit_words (MState p (w3 @ r) g) = [MState (Some (last w3)) r g]
         \<and> map group0 (re_finditer True spoken_pattern (w1 @ '' '' @ w2 @ '' '' @ w3 @ tail))
           = [w1 @ '' '' @ w2 @ '' '' @ w3]
         \<and> extract_ticket_keys (w1 @ '' '' @ w2 @ '' '' @ w3 @ tail) dp
           = [\<lparr>key = dp @ ''-'' @ d1 @ d2 @ d3, confidence = low, type = spoken_digits\<rparr>]
         \<and> map group0 (re_finditer True spoken_pattern ''one two nineteen'') = [''one two nine'']
         \<and> extract_ticket_keys ''one two nineteen'' ''WJR''
           = [\<lparr>key = ''WJR-129'', confidence = low, type = spoken_digits\<rparr>]"
proof -
  let ?A = "w1 @ CHR '' '' # w2 @ CHR '' '' # w3"
  let ?T = "w1 @ CHR '' '' # w2 @ CHR '' '' # w3 @ tail"
  let ?gs = "[(2, w3), (2, w2), (1::nat, w1)]"
  have T: "?T = ?A @ tail" by simp
  have low: "list_all is_lower w1" "list_all is_lower w2" "list_all is_lower w3" "w3 \<noteq> []"
    using table_entry [OF w1] table_entry [OF w2] table_entry [OF w3] by simp_all
  have chars: "\<forall>c \<in> set ?T. is_alpha c \<or> c = CHR '' ''"
    using low tail by (auto simp: list_all_iff is_alpha_def)
  have t0: "tail = [] \<or> \<not> is_space (hd tail)"
    using tail by (cases tail) (simp_all add: alpha_not_space)
  from spoken_run_match [OF w1 w2 w3 t0] obtain sts where
    m: "rmatch True spoken_pattern (MState None ?T []) = MState (Some (last w3)) tail ?gs # sts"
    by blast
  from low(3,4) have lw: "is_word (last w3)"
    by (auto simp: list_all_iff is_word_def is_alpha_def)
  from tail have "list_all is_word tail" by (auto simp: list_all_iff is_word_def)
  from spoken_inside_word [OF lw this]
  have after: "finditer_from True spoken_pattern (Some (last w3)) tail = []" .
  have "take (length (?A @ tail) - length tail) (?A @ tail) = ?A" by simp
  then have "take (length ?T - length tail) ?T = ?A" by (simp only: T)
  then have mk: "mk_match ?T (MState b tail gs) = Mtch ?A gs" for b gs
    by (simp only: mk_match_def mstate.sel)
  have fi: "re_finditer True spoken_pattern ?T = [Mtch ?A ?gs]"
    unfolding re_finditer_def by (simp add: finditer_from_some [OF m] after mk)
  have "c \<noteq> CHR ''-'' \<and> \<not> is_digit c" if "c \<in> set ?T" for c
  proof -
    from chars that have "is_alpha c \<or> c = CHR '' ''" by blast
    then show ?thesis
    proof
      assume "is_alpha c"
      then show ?thesis by (simp add: alpha_not_dash alpha_not_digit)
    next
      assume "c = CHR '' ''"
      then show ?thesis by (simp add: is_digit_def code_def)
    qed
  qed
  then have nd: "CHR ''-'' \<notin> set ?T" "\<forall>c \<in> set ?T. \<not> is_digit c" by blast+
  from nd(1) have "CHR ''-'' \<notin> set ?T" .
  then have f1: "re_finditer False full_pattern ?T = []"
    unfolding re_finditer_def by (rule no_full_match)
  from nd(2) have f2: "re_finditer True partial_pattern ?T = []"
    unfolding re_finditer_def by (rule no_partial_match)
  from table_entry [OF w1] table_entry [OF w2] table_entry [OF w3]
  have len: "length (d1 @ d2 @ d3) = 3" by simp
  have ex: "extract_ticket_keys ?T dp
           = [\<lparr>key = dp @ ''-'' @ d1 @ d2 @ d3, confidence = low, type = spoken_digits\<rparr>]"
    using len
    by (simp add: extract_ticket_keys_def tier1_def tier2_def tier3_def f1 f2 fi add_spoken_def
          spoken_run_digits [OF w1 w2 w3] has_key_def Let_def)
  have e1: "map group0 (re_finditer True spoken_pattern ''one two nineteen'') = [''one two nine'']"
    by code_simp
  have e2: "extract_ticket_keys ''one two nineteen'' ''WJR''
           = [\<lparr>key = ''WJR-129'', confidence = low, type = spoken_digits\<rparr>]"
    by code_simp
  from digit_word_reads [OF w3, of p r g] fi ex e1 e2 show ?thesis by simp
qed

theorem spoken_prefix_of_longer_word_witness:
  "(''one'', ''1'') \<in> set SPOKEN_DIGITS \<and> (''two'', ''2'') \<in> set SPOKEN_DIGITS
   \<and> (''six'', ''6'') \<in> set SPOKEN_DIGITS \<and> list_all is_alpha ''teen''
   \<and> map group0 (re_finditer True spoken_pattern ''one two sixteen'') = [''one two six'']
   \<and> extract_ticket_keys ''one two sixteen'' ''WJR''
       = [\<lparr>key = ''WJR-126'', confidence = low, type = spoken_digits\<rparr>]"
proof -
  have a: "(''one'', ''1'') \<in> set SPOKEN_DIGITS" "(''two'', ''2'') \<in> set SPOKEN_DIGITS"
    "(''six'', ''6'') \<in> set SPOKEN_DIGITS"
    by (simp_all add: SPOKEN_DIGITS_def)
  have b: "list_all is_alpha ''teen''" by code_simp
  from spoken_prefix_of_longer_word [OF a b, where dp = "''WJR''"] a b show ?thesis by simp
qed

section \<open>The comment in Atlassian Document Format\<close>

lemma footer_border_free: "border_free FOOTER"
  by code_simp

lemma is_prefix_iff: "is_prefix a b \<longleftrightarrow> (\<exists>r. b = a @ r)"
  by (induction a b rule: is_prefix.induct) auto

lemma py_in_iff: "py_in a b \<longleftrightarrow> (\<exists>x y. b = x @ a @ y)"
proof (induction b)
  case Nil
  then show ?case by auto
next
  case (Cons c cs)
  show ?case
  proof
    assume "py_in a (c # cs)"
    then consider "is_prefix a (c # cs)" | "py_in a cs" by auto
    then show "\<exists>x y. c # cs = x @ a @ y"
    proof cases
      case 1
      then obtain r where "c # cs = a @ r" by (auto simp: is_prefix_iff)
      then have "c # cs = [] @ a @ r" by simp
      then show ?thesis by blast
    next
      case 2
      with Cons obtain x y where "cs = x @ a @ y" by blast
      then have "c # cs = (c # x) @ a @ y" by simp
      then show ?thesis by blast
    qed
  next
    assume "\<exists>x y. c # cs = x @ a @ y"
    then obtain x y where xy: "c # cs = x @ a @ y" by blast
    show "py_in a (c # cs)"
    proof (cases x)
      case Nil
      with xy have "is_prefix a (c # cs)" by (auto simp: is_prefix_iff)
      then show ?thesis by simp
    next
      case (Cons x1 xs)
      with xy have "cs = xs @ a @ y" by simp
      with Cons.IH have "py_in a cs" by blast
      then show ?thesis by simp
    qed
  qed
qed

lemma count_occ_short: "length s < length p \<Longrightarrow> count_occ p s = 0"
proof (induction s)
  case Nil
  then show ?case by auto
next
  case (Cons c cs)
  then have "\<not> is_prefix p (c # cs)"
    by (auto simp: is_prefix_iff dest!: arg_cong [where f = length])
  with Cons show ?case by simp
qed

lemma count_occ_self: "p \<noteq> [] \<Longrightarrow> count_occ p p = 1"
  by (cases p) (auto simp: count_occ_short is_prefix_iff)

lemma border_freeD:
  "border_free p \<Longrightarrow> 0 < k \<Longrightarrow> k < length p \<Longrightarrow> take k p \<noteq> drop (length p - k) p"
  by (auto simp: border_free_def list_all_iff)

lemma no_straddle:
  assumes "border_free p" and "h \<noteq> []" and "is_prefix p (h @ p)"
  shows "is_prefix p h"
proof (cases "length p \<le> length h")
  case True
  from assms(3) obtain r where r: "h @ p = p @ r" by (auto simp: is_prefix_iff)
  then have "take (length p) (h @ p) = p" by simp
  with True have "take (length p) h = p" by simp
  then have "h = p @ drop (length p) h" by (metis append_take_drop_id)
  then show ?thesis by (auto simp: is_prefix_iff)
next
  case False
  let ?k = "length p - length h"
  from assms(2) have "0 < length h" by simp
  with False have k: "0 < ?k" "?k < length p" by arith+
  from assms(3) obtain r where r: "h @ p = p @ r" by (auto simp: is_prefix_iff)
  then have "take (length p) (h @ p) = p" by simp
  with False have p: "h @ take ?k p = p" by simp
  then have "drop (length h) p = take ?k p" by (metis append_eq_conv_conj)
  moreover from False have "length p - ?k = length h" by simp
  ultimately have "take ?k p = drop (length p - ?k) p" by simp
  with border_freeD [OF assms(1) k] show ?thesis by blast
qed

lemma count_occ_once:
  assumes "border_free p" and "p \<noteq> []"
  shows "\<not> py_in p h \<Longrightarrow> count_occ p (h @ p) = 1"
proof (induction h)
  case Nil
  with assms(2) show ?case by (simp add: count_occ_self)
next
  case (Cons c h)
  from Cons.prems have a: "\<not> is_prefix p (c # h)" and b: "\<not> py_in p h" by auto
  from a no_straddle [OF assms(1), of "c # h"] have "\<not> is_prefix p ((c # h) @ p)" by blast
  with Cons.IH [OF b] show ?case by simp
qed

lemma fold_sections:
  "fold (\<lambda>item blocks. blocks @ speaker_section item) sp acc = acc @ concat (map speaker_section sp)"
  by (induction sp arbitrary: acc) simp_all

lemma doc_content_eq:
  "doc_content (generate_adf_comment c date_str sp)
     = title_paragraph date_str # concat (map speaker_section sp) @ [footer_paragraph]"
  by (simp add: generate_adf_comment_def fold_sections)

lemma all_text_single:
  "all_text (generate_adf_comment c date_str [(speaker, [utterance])])
     = title date_str @ speaker @ utterance @ FOOTER"
  by (simp add: all_text_def doc_content_eq title_paragraph_def footer_paragraph_def speaker_section_def)

lemma footer_nonempty: "FOOTER \<noteq> []"
  by (simp add: FOOTER_def)

text \<open>
  C9 (as amended). The comment is the title paragraph (bold, \<open>Standup Update\<close> and the
  date), then for each speaker, in the order of the dictionary, one heading and one
  bullet list, then the italic footer paragraph. For a context with one speaker and one
  utterance the concatenated text nodes contain the utterance and contain the
  disclaimer; the disclaimer occurs exactly once provided it does not occur in the
  text before the footer node, that is in the title, the speaker's name and the
  utterance taken together.
\<close>

theorem adf_comment_layout:
  "doc_content (generate_adf_comment c date_str sp)
     = title_paragraph date_str # concat (map speaker_section sp) @ [footer_paragraph]
   \<and> py_in utterance (all_text (generate_adf_comment c date_str [(speaker, [utterance])]))
   \<and> py_in FOOTER (all_text (generate_adf_comment c date_str [(speaker, [utterance])]))
   \<and> (\<not> py_in FOOTER (title date_str @ speaker @ utterance) \<longrightarrow>
        count_occ FOOTER (all_text (generate_adf_comment c date_str [(speaker, [utterance])])) = 1)"
proof (intro conjI impI)
  show "doc_content (generate_adf_comment c date_str sp)
     = title_paragraph date_str # concat (map speaker_section sp) @ [footer_paragraph]"
    by (rule doc_content_eq)
next
  have "title date_str @ speaker @ utterance @ FOOTER = (title date_str @ speaker) @ utterance @ FOOTER"
    by simp
  then show "py_in utterance (all_text (generate_adf_comment c date_str [(speaker, [utterance])]))"
    unfolding all_text_single py_in_iff by blast
next
  have "title date_str @ speaker @ utterance @ FOOTER = (title date_str @ speaker @ utterance) @ FOOTER @ []"
    by simp
  then show "py_in FOOTER (all_text (generate_adf_comment c date_str [(speaker, [utterance])]))"
    unfolding all_text_single py_in_iff by blast
next
  assume "\<not> py_in FOOTER (title date_str @ speaker @ utterance)"
  from count_occ_once [OF footer_border_free footer_nonempty this]
  show "count_occ FOOTER (all_text (generate_adf_comment c date_str [(speaker, [utterance])])) = 1"
    by (simp add: all_text_single)
qed

theorem adf_comment_layout_witness:
  "\<not> py_in FOOTER (title ''27 Oct 2025'' @ ''Alice'' @ ''fixed the bug'')
   \<and> count_occ FOOTER
        (all_text (generate_adf_comment () ''27 Oct 2025'' [(''Alice'', [''fixed the bug''])])) = 1
   \<and> py_in ''fixed the bug''
        (all_text (generate_adf_comment () ''27 Oct 2025'' [(''Alice'', [''fixed the bug''])]))"
proof -
  have a: "\<not> py_in FOOTER (title ''27 Oct 2025'' @ ''Alice'' @ ''fixed the bug'')"
    by code_simp
  from adf_comment_layout [of "()" "''27 Oct 2025''" "[]" "''fixed the bug''" "''Alice''"] a
  show ?thesis by blast
qed

text \<open>
  C9 as stated fails twice over on a context whose one utterance is the disclaimer
  itself: the blocks are not only the speaker's heading and list followed by the
  footer (the title paragraph comes first), and the disclaimer occurs twice in the
  concatenated text.
\<close>

theorem adf_comment_counterexample:
  "doc_content (generate_adf_comment () ''27 Oct 2025'' [(''Alice'', [FOOTER])])
     \<noteq> concat (map speaker_section [(''Alice'', [FOOTER])]) @ [footer_paragraph]
   \<and> count_occ FOOTER (all_text (generate_adf_comment () ''27 Oct 2025'' [(''Alice'', [FOOTER])])) = 2"
  by code_simp

section \<open>The date of the standup and \<open>parse_transcript\<close>\<close>

lemma split_on_nonempty: "split_on sep s \<noteq> []"
  by (induction s) (auto split: list.splits)

lemma split_on_two: "sep \<in> set s \<Longrightarrow> \<exists>a b r. split_on sep s = a # b # r"
proof (induction s)
  case Nil
  then show ?case by simp
next
  case (Cons c cs)
  show ?case
  proof (cases "c = sep")
    case True
    obtain b r where "split_on sep cs = b # r"
      using split_on_nonempty [of sep cs] by (cases "split_on sep cs") auto
    with True show ?thesis by simp
  next
    case False
    with Cons obtain a b r where "split_on sep cs = a # b # r" by auto
    with False show ?thesis by simp
  qed
qed

lemma second_field_dash: "CHR ''-'' \<in> set k \<Longrightarrow> \<exists>f. second_field k = Inr f"
  using split_on_two [of "CHR ''-''" k] by (auto simp: second_field_def)

lemma context_speakers_total:
  "second_field k = Inr f \<Longrightarrow> \<exists>sp'. context_speakers k sp acc = Inr sp'"
  by (induction sp arbitrary: acc) (auto simp: relevant_lines_def relevant_from_eq)

lemma group_by_ticket_total:
  "\<forall>t \<in> set ts. CHR ''-'' \<in> set (key t) \<Longrightarrow> \<exists>cs. group_by_ticket ts sp acc = Inr cs"
proof (induction ts arbitrary: acc)
  case Nil
  then show ?case by simp
next
  case (Cons t ts)
  then have "CHR ''-'' \<in> set (key t)" by simp
  from second_field_dash [OF this] obtain f where "second_field (key t) = Inr f" by blast
  from context_speakers_total [OF this] obtain sp' where
    "context_speakers (key t) sp [] = Inr sp'" by blast
  with Cons show ?case by simp
qed

lemma extracted_has_dash:
  assumes "t \<in> set (extract_ticket_keys text dp)"
  shows "CHR ''-'' \<in> set (key t)"
proof -
  obtain new where new:
    "extract_ticket_keys text dp = tier2 text dp (tier1 text) @ new"
    "\<forall>t \<in> set new. \<exists>m \<in> set (re_finditer True spoken_pattern text). t = spoken_mention dp m
        \<and> 3 \<le> length (spoken_to_digits (group0 m)) \<and> \<not> has_key (key t) (tier2 text dp (tier1 text))"
    unfolding extract_ticket_keys_def tier3_def using fold_add_spoken_origin by blast
  from assms new(1) consider "t \<in> set new" | "t \<in> set (tier2 text dp (tier1 text))" by auto
  then show ?thesis
  proof cases
    case 1
    with new(2) show ?thesis by (auto simp: spoken_mention_def)
  next
    case 2
    from fold_add_partial_keys [OF 2 [unfolded tier2_def]] show ?thesis
    proof
      assume "t \<in> set (tier1 text)"
      then have "one_dash (key t)" by (rule tier1_one_dash)
      then show ?thesis by (rule one_dashE) simp
    next
      assume "\<exists>m \<in> set (re_finditer True partial_pattern text). key t = dp @ ''-'' @ fmt (group_of m 1)"
      then show ?thesis by auto
    qed
  qed
qed

lemma parse_transcript_success:
  "\<exists>cs. group_by_ticket (extract_ticket_keys text dp) (parse_speakers text) [] = Inr cs
     \<and> parse_transcript cal text dp =
         success \<lparr>parsed_date =
                    strftime_d_b_Y
                      (case extract_date_from_transcript (parse_date cal) text of
                         Some d \<Rightarrow> d
                       | None \<Rightarrow> now_in cal SYDNEY_TZ),
                  parsed_tickets = extract_ticket_keys text dp,
                  parsed_speakers = parse_speakers text,
                  parsed_contexts = cs,
                  parsed_project = dp\<rparr>"
proof -
  have "\<forall>t \<in> set (extract_ticket_keys text dp). CHR ''-'' \<in> set (key t)"
    by (blast intro: extracted_has_dash)
  from group_by_ticket_total [OF this, of "parse_speakers text" "[]"] obtain cs where
    "group_by_ticket (extract_ticket_keys text dp) (parse_speakers text) [] = Inr cs" by blast
  then show ?thesis
    by (simp add: parse_transcript_def parse_transcript_body_def try_except_def date_used_def
          get_sydney_date_def split: option.splits)
qed

lemma parse_transcript_date:
  "\<exists>p. parse_transcript cal text dp = success p
        \<and> parsed_date p =
            strftime_d_b_Y
              (case extract_date_from_transcript (parse_date cal) text of
                 Some d \<Rightarrow> d
               | None \<Rightarrow> now_in cal ''Australia/Sydney'')"
  using parse_transcript_success [of "text" dp cal, unfolded SYDNEY_TZ_def] by auto

lemma ex_date1: "re_search True date_pattern1 ''Standup for 27 Oct 2025''
    = Some (Mtch ''Standup for 27 Oct 2025'' [(1, ''27 Oct 2025'')])"
  by code_simp

lemma ex_date2: "re_search True date_pattern2 ''Standup for 27 Oct 2025'' = None"
  by code_simp

lemma ex_date:
  "extract_date_from_transcript parse ''Standup for 27 Oct 2025''
     = (case parse ''27 Oct 2025'' of Inr d \<Rightarrow> Some d | Inl e \<Rightarrow> None)"
  by (simp add: extract_date_from_transcript_def date_patterns_def ex_date1 ex_date2
        group_of_def fmt_def split: sum.splits)

lemma first_pattern_wins:
  "re_search True date_pattern1 text = Some m \<Longrightarrow> parse (fmt (group_of m 1)) = Inr d \<Longrightarrow>
     extract_date_from_transcript parse text = Some d"
  by (simp add: extract_date_from_transcript_def date_patterns_def)

lemma second_pattern_next:
  "re_search True date_pattern1 text = None
     \<or> (re_search True date_pattern1 text = Some m \<and> parse (fmt (group_of m 1)) = Inl e) \<Longrightarrow>
   extract_date_from_transcript parse text =
     (case re_search True date_pattern2 text of
        None \<Rightarrow> None
      | Some m2 \<Rightarrow> (case parse (fmt (group_of m2 1)) of Inr d2 \<Rightarrow> Some d2 | Inl e2 \<Rightarrow> None))"
  by (auto simp: extract_date_from_transcript_def date_patterns_def split: option.splits sum.splits)

lemma strftime_example:
  "strftime_d_b_Y \<lparr>dt_year = 2025, dt_month = Oct, dt_day = 27\<rparr> = ''27 Oct 2025''"
  by code_simp

text \<open>
  C6 (as amended). The first pattern is tried before the second. When the parser reads
  what the leftmost match of the first pattern captured, that date is the result. When
  the first pattern does not match, or the parser raises on what it captured, the result
  is that of the second pattern alone: its parsed capture, or none. \<open>get_sydney_date()\<close>
  is the current date in the zone \<open>Australia/Sydney\<close>; when the resolver returns none,
  \<open>parse_transcript\<close> reports that date, and otherwise the date found, as day, month name
  and year. With a parser that reads \<open>27 Oct 2025\<close> as 27 October 2025, every text in which
  the leftmost match of the first pattern captures \<open>27 Oct 2025\<close>, and the text
  \<open>Standup for 27 Oct 2025\<close> in particular, resolves to 27 October 2025, and
  \<open>parse_transcript\<close> reports \<open>27 Oct 2025\<close>.
\<close>

theorem date_resolution:
  "(re_search True date_pattern1 text = Some m \<and> parse_date cal (fmt (group_of m 1)) = Inr d
      \<longrightarrow> extract_date_from_transcript (parse_date cal) text = Some d)
   \<and> ((re_search True date_pattern1 text = None
         \<or> (re_search True date_pattern1 text = Some m \<and> parse_date cal (fmt (group_of m 1)) = Inl e))
      \<longrightarrow> extract_date_from_transcript (parse_date cal) text =
            (case re_search True date_pattern2 text of
               None \<Rightarrow> None
             | Some m2 \<Rightarrow> (case parse_date cal (fmt (group_of m2 1)) of Inr d2 \<Rightarrow> Some d2 | Inl e2 \<Rightarrow> None)))
   \<and> get_sydney_date cal None = Inr (now_in cal ''Australia/Sydney'')
   \<and> (extract_date_from_transcript (parse_date cal) text = None
      \<longrightarrow> (\<exists>p. parse_transcript cal text dp = success p
                \<and> parsed_date p = strftime_d_b_Y (now_in cal ''Australia/Sydney'')))
   \<and> (extract_date_from_transcript (parse_date cal) text = Some d
      \<longrightarrow> (\<exists>p. parse_transcript cal text dp = success p \<and> parsed_date p = strftime_d_b_Y d))
   \<and> (re_search True date_pattern1 text = Some m \<and> group_of m 1 = Some ''27 Oct 2025''
        \<and> parse_date cal ''27 Oct 2025'' = Inr \<lparr>dt_year = 2025, dt_month = Oct, dt_day = 27\<rparr>
      \<longrightarrow> extract_date_from_transcript (parse_date cal) text
            = Some \<lparr>dt_year = 2025, dt_month = Oct, dt_day = 27\<rparr>
          \<and> (\<exists>p. parse_transcript cal text dp = success p \<and> parsed_date p = ''27 Oct 2025''))
   \<and> (parse_date cal ''27 Oct 2025'' = Inr \<lparr>dt_year = 2025, dt_month = Oct, dt_day = 27\<rparr>
      \<longrightarrow> extract_date_from_transcript (parse_date cal) ''Standup for 27 Oct 2025''
            = Some \<lparr>dt_year = 2025, dt_month = Oct, dt_day = 27\<rparr>
          \<and> (\<exists>p. parse_transcript cal ''Standup for 27 Oct 2025'' dp = success p
                \<and> parsed_date p = ''27 Oct 2025''))"
proof -
  let ?d = "\<lparr>dt_year = 2025, dt_month = Oct, dt_day = 27\<rparr>"
  have c1: "re_search True date_pattern1 text = Some m \<and> parse_date cal (fmt (group_of m 1)) = Inr d
      \<longrightarrow> extract_date_from_transcript (parse_date cal) text = Some d"
    by (simp add: first_pattern_wins)
  have c2: "(re_search True date_pattern1 text = None
         \<or> (re_search True date_pattern1 text = Some m \<and> parse_date cal (fmt (group_of m 1)) = Inl e))
      \<longrightarrow> extract_date_from_transcript (parse_date cal) text =
            (case re_search True date_pattern2 text of
               None \<Rightarrow> None
             | Some m2 \<Rightarrow> (case parse_date cal (fmt (group_of m2 1)) of Inr d2 \<Rightarrow> Some d2 | Inl e2 \<Rightarrow> None))"
    using second_pattern_next [of "text" m "parse_date cal" e] by blast
  have c3: "get_sydney_date cal None = Inr (now_in cal ''Australia/Sydney'')"
    by (simp add: get_sydney_date_def SYDNEY_TZ_def)
  have c4: "extract_date_from_transcript (parse_date cal) text = None
      \<longrightarrow> (\<exists>p. parse_transcript cal text dp = success p
                \<and> parsed_date p = strftime_d_b_Y (now_in cal ''Australia/Sydney''))"
    using parse_transcript_date [of cal "text" dp] by auto
  have c5: "extract_date_from_transcript (parse_date cal) text = Some d
      \<longrightarrow> (\<exists>p. parse_transcript cal text dp = success p \<and> parsed_date p = strftime_d_b_Y d)"
    using parse_transcript_date [of cal "text" dp] by auto
  have c6: "re_search True date_pattern1 text = Some m \<and> group_of m 1 = Some ''27 Oct 2025''
        \<and> parse_date cal ''27 Oct 2025'' = Inr ?d
      \<longrightarrow> extract_date_from_transcript (parse_date cal) text = Some ?d
          \<and> (\<exists>p. parse_transcript cal text dp = success p \<and> parsed_date p = ''27 Oct 2025'')"
  proof (intro impI)
    assume a: "re_search True date_pattern1 text = Some m \<and> group_of m 1 = Some ''27 Oct 2025''
        \<and> parse_date cal ''27 Oct 2025'' = Inr ?d"
    then have "parse_date cal (fmt (group_of m 1)) = Inr ?d" by (simp add: fmt_def)
    with a have x: "extract_date_from_transcript (parse_date cal) text = Some ?d"
      by (simp add: first_pattern_wins)
    with parse_transcript_date [of cal "text" dp] strftime_example
    show "extract_date_from_transcript (parse_date cal) text = Some ?d
          \<and> (\<exists>p. parse_transcript cal text dp = success p \<and> parsed_date p = ''27 Oct 2025'')"
      by auto
  qed
  have c7: "parse_date cal ''27 Oct 2025'' = Inr ?d
      \<longrightarrow> extract_date_from_transcript (parse_date cal) ''Standup for 27 Oct 2025'' = Some ?d
          \<and> (\<exists>p. parse_transcript cal ''Standup for 27 Oct 2025'' dp = success p
                \<and> parsed_date p = ''27 Oct 2025'')"
  proof (intro impI)
    assume a: "parse_date cal ''27 Oct 2025'' = Inr ?d"
    then have x: "extract_date_from_transcript (parse_date cal) ''Standup for 27 Oct 2025'' = Some ?d"
      by (simp add: ex_date)
    with parse_transcript_date [of cal "''Standup for 27 Oct 2025''" dp] strftime_example
    show "extract_date_from_transcript (parse_date cal) ''Standup for 27 Oct 2025'' = Some ?d
          \<and> (\<exists>p. parse_transcript cal ''Standup for 27 Oct 2025'' dp = success p
                \<and> parsed_date p = ''27 Oct 2025'')"
      by auto
  qed
  show ?thesis
    by (intro conjI) (fact c1 c2 c3 c4 c5 c6 c7)+
qed

theorem date_resolution_witness:
  "re_search True date_pattern1 ''Standup for 27 Oct 2025''
     = Some (Mtch ''Standup for 27 Oct 2025'' [(1, ''27 Oct 2025'')])
   \<and> parse_date sample_calendar ''27 Oct 2025'' = Inr \<lparr>dt_year = 2025, dt_month = Oct, dt_day = 27\<rparr>
   \<and> extract_date_from_transcript (parse_date sample_calendar) ''Standup for 27 Oct 2025''
       = Some \<lparr>dt_year = 2025, dt_month = Oct, dt_day = 27\<rparr>
   \<and> (\<exists>p. parse_transcript sample_calendar ''Standup for 27 Oct 2025'' ''WJR'' = success p
          \<and> parsed_date p = ''27 Oct 2025'')
   \<and> re_search True date_pattern1 ''Meeting on 31 Feb. Minutes of 1 March 2025''
       = Some (Mtch ''Meeting on 31 Feb'' [(1, ''31 Feb'')])
   \<and> parse_date sample_calendar ''31 Feb'' = Inl ''Unknown string format''
   \<and> re_search True date_pattern2 ''Meeting on 31 Feb. Minutes of 1 March 2025''
       = Some (Mtch ''1 March 2025'' [(1, ''1 March 2025'')])
   \<and> extract_date_from_transcript (parse_date sample_calendar)
         ''Meeting on 31 Feb. Minutes of 1 March 2025''
       = Some \<lparr>dt_year = 2025, dt_month = Mar, dt_day = 1\<rparr>
   \<and> (\<exists>p. parse_transcript sample_calendar ''Meeting on 31 Feb. Minutes of 1 March 2025'' ''WJR''
              = success p
          \<and> parsed_date p = ''01 Mar 2025'')
   \<and> re_search True date_pattern1 ''Alice: nothing new'' = None
   \<and> extract_date_from_transcript (parse_date sample_calendar) ''Alice: nothing new'' = None
   \<and> (\<exists>p. parse_transcript sample_calendar ''Alice: nothing new'' ''WJR'' = success p
          \<and> parsed_date p = ''05 Nov 2026'')"
proof -
  let ?F = "''Meeting on 31 Feb. Minutes of 1 March 2025''"
  let ?m = "Mtch ''Meeting on 31 Feb'' [(1, ''31 Feb'')]"
  have a: "re_search True date_pattern1 ''Standup for 27 Oct 2025''
     = Some (Mtch ''Standup for 27 Oct 2025'' [(1, ''27 Oct 2025'')])"
    by (rule ex_date1)
  have b: "parse_date sample_calendar ''27 Oct 2025'' = Inr \<lparr>dt_year = 2025, dt_month = Oct, dt_day = 27\<rparr>"
    by (simp add: sample_calendar_def)
  have c: "re_search True date_pattern1 ?F = Some ?m"
    by code_simp
  have d: "parse_date sample_calendar ''31 Feb'' = Inl ''Unknown string format''"
    by (simp add: sample_calendar_def)
  then have d': "parse_date sample_calendar (fmt (group_of ?m 1)) = Inl ''Unknown string format''"
    by (simp add: group_of_def fmt_def)
  have e: "re_search True date_pattern2 ?F = Some (Mtch ''1 March 2025'' [(1, ''1 March 2025'')])"
    by code_simp
  have f: "parse_date sample_calendar (fmt (group_of (Mtch ''1 March 2025'' [(1, ''1 March 2025'')]) 1))
             = Inr \<lparr>dt_year = 2025, dt_month = Mar, dt_day = 1\<rparr>"
    by (simp add: sample_calendar_def group_of_def fmt_def)
  have g: "re_search True date_pattern1 ''Alice: nothing new'' = None"
    by code_simp
  have h: "re_search True date_pattern2 ''Alice: nothing new'' = None"
    by code_simp
  have i: "strftime_d_b_Y \<lparr>dt_year = 2025, dt_month = Mar, dt_day = 1\<rparr> = ''01 Mar 2025''"
    by code_simp
  have j: "strftime_d_b_Y (now_in sample_calendar ''Australia/Sydney'') = ''05 Nov 2026''"
    by code_simp
  note t1 = date_resolution [of _ _ sample_calendar _ _ "''WJR''"]
  note t2 = date_resolution
    [of ?F ?m sample_calendar "\<lparr>dt_year = 2025, dt_month = Mar, dt_day = 1\<rparr>"
        "''Unknown string format''" "''WJR''"]
  note t3 = date_resolution [of "''Alice: nothing new''" _ sample_calendar _ _ "''WJR''"]
  from t1 b have w1: "extract_date_from_transcript (parse_date sample_calendar) ''Standup for 27 Oct 2025''
       = Some \<lparr>dt_year = 2025, dt_month = Oct, dt_day = 27\<rparr>"
    and w2: "\<exists>p. parse_transcript sample_calendar ''Standup for 27 Oct 2025'' ''WJR'' = success p
          \<and> parsed_date p = ''27 Oct 2025''"
    by blast+
  from t2 c d' have "extract_date_from_transcript (parse_date sample_calendar) ?F =
            (case re_search True date_pattern2 ?F of
               None \<Rightarrow> None
             | Some m2 \<Rightarrow> (case parse_date sample_calendar (fmt (group_of m2 1)) of
                             Inr d2 \<Rightarrow> Some d2 | Inl e2 \<Rightarrow> None))"
    by blast
  then have w3: "extract_date_from_transcript (parse_date sample_calendar) ?F
                   = Some \<lparr>dt_year = 2025, dt_month = Mar, dt_day = 1\<rparr>"
    by (simp only: e f option.case sum.case)
  with t2 have "\<exists>p. parse_transcript sample_calendar ?F ''WJR'' = success p
          \<and> parsed_date p = strftime_d_b_Y \<lparr>dt_year = 2025, dt_month = Mar, dt_day = 1\<rparr>"
    by blast
  then have w4: "\<exists>p. parse_transcript sample_calendar ?F ''WJR'' = success p
          \<and> parsed_date p = ''01 Mar 2025''"
    by (simp only: i)
  from t3 g have "extract_date_from_transcript (parse_date sample_calendar) ''Alice: nothing new'' =
            (case re_search True date_pattern2 ''Alice: nothing new'' of
               None \<Rightarrow> None
             | Some m2 \<Rightarrow> (case parse_date sample_calendar (fmt (group_of m2 1)) of
                             Inr d2 \<Rightarrow> Some d2 | Inl e2 \<Rightarrow> None))"
    by blast
  then have w5: "extract_date_from_transcript (parse_date sample_calendar) ''Alice: nothing new'' = None"
    by (simp only: h option.case)
  with t3 have "\<exists>p. parse_transcript sample_calendar ''Alice: nothing new'' ''WJR'' = success p
          \<and> parsed_date p = strftime_d_b_Y (now_in sample_calendar ''Australia/Sydney'')"
    by blast
  then have w6: "\<exists>p. parse_transcript sample_calendar ''Alice: nothing new'' ''WJR'' = success p
          \<and> parsed_date p = ''05 Nov 2026''"
    by (simp only: j)
  show ?thesis
    by (intro conjI) (fact a b c d e g w1 w2 w3 w4 w5 w6)+
qed

text \<open>
  C6 as stated fails in its example: a text that contains \<open>Standup for 27 Oct 2025\<close>
  after an earlier match of the first pattern hands the earlier capture to the parser.
  Here the parser is the one that returns the string it is given, to show what it is
  given: \<open>3 Jan\<close>.
\<close>

theorem date_earlier_match_counterexample:
  "py_in ''Standup for 27 Oct 2025'' ''Meeting on 3 Jan. Standup for 27 Oct 2025''
   \<and> extract_date_from_transcript Inr ''Standup for 27 Oct 2025'' = Some ''27 Oct 2025''
   \<and> extract_date_from_transcript Inr ''Meeting on 3 Jan. Standup for 27 Oct 2025'' = Some ''3 Jan''"
  by code_simp

section \<open>The credential cache\<close>

lemma keys_differ: "JIRA_TOKEN_CACHE_KEY \<noteq> CLOUD_ID_KEY"
  by (simp add: CLOUD_ID_KEY_def)

lemma auth_hit:
  "cached JIRA_TOKEN_CACHE_KEY tok s \<Longrightarrow> get_jira_auth env s = (Inr (PyStr tok), s, [])"
  by (cases s) (auto simp: cached_def get_jira_auth_def io_bind_def state_get_def io_return_def truthy_val_def)

lemma cloud_hit:
  "cached CLOUD_ID_KEY cid s \<Longrightarrow> get_jira_cloud_id http tok s = (Inr (PyStr cid), s, [])"
  by (cases s) (auto simp: cached_def get_jira_cloud_id_def io_bind_def state_get_def io_return_def truthy_val_def)

lemma auth_keeps_cloud:
  "cached CLOUD_ID_KEY cid s \<Longrightarrow> get_jira_auth env s = (r, s', ev) \<Longrightarrow> cached CLOUD_ID_KEY cid s'"
  by (cases s)
     (auto simp: cached_def get_jira_auth_def io_bind_def state_get_def state_set_def io_return_def
        io_raise_def call_out_def keys_differ keys_differ [symmetric]
        split: if_splits sum.splits option.splits prod.splits)

lemma cloud_keeps_token:
  "cached JIRA_TOKEN_CACHE_KEY tok s \<Longrightarrow> get_jira_cloud_id http t s = (r, s', ev) \<Longrightarrow>
     cached JIRA_TOKEN_CACHE_KEY tok s'"
  by (cases s)
     (auto simp: cached_def get_jira_cloud_id_def io_bind_def state_get_def state_set_def io_return_def
        io_raise_def call_out_def keys_differ keys_differ [symmetric]
        split: if_splits sum.splits option.splits prod.splits list.splits)

lemma auth_fills:
  "get_jira_auth env s = (Inr (PyStr tok), s', ev) \<Longrightarrow> tok \<noteq> [] \<Longrightarrow> cached JIRA_TOKEN_CACHE_KEY tok s'"
  by (cases s)
     (auto simp: cached_def get_jira_auth_def io_bind_def state_get_def state_set_def io_return_def
        io_raise_def call_out_def truthy_val_def
        split: if_splits sum.splits option.splits prod.splits pyval.splits)

lemma cloud_fills:
  "get_jira_cloud_id http t s = (Inr (PyStr cid), s', ev) \<Longrightarrow> cid \<noteq> [] \<Longrightarrow> cached CLOUD_ID_KEY cid s'"
  by (cases s)
     (auto simp: cached_def get_jira_cloud_id_def io_bind_def state_get_def state_set_def io_return_def
        io_raise_def call_out_def truthy_val_def
        split: if_splits sum.splits option.splits prod.splits list.splits pyval.splits)

lemma auth_events:
  "get_jira_auth env s = (r, s', ev) \<Longrightarrow> set ev \<subseteq> {GetAuthResponse Jira, RequestCredential Jira}"
  by (cases s)
     (auto simp: get_jira_auth_def io_bind_def state_get_def state_set_def io_return_def
        io_raise_def call_out_def
        split: if_splits sum.splits option.splits prod.splits)

lemma cloud_events:
  "get_jira_cloud_id http t s = (r, s', ev) \<Longrightarrow> set ev \<subseteq> {HttpGet Resources}"
  by (cases s)
     (auto simp: get_jira_cloud_id_def io_bind_def state_get_def state_set_def io_return_def
        io_raise_def call_out_def
        split: if_splits sum.splits option.splits prod.splits list.splits)

lemma run_token:
  "cached JIRA_TOKEN_CACHE_KEY tok s \<Longrightarrow> run calls s = (rs, s', evs) \<Longrightarrow>
     cached JIRA_TOKEN_CACHE_KEY tok s'
     \<and> GetAuthResponse Jira \<notin> set evs \<and> RequestCredential Jira \<notin> set evs
     \<and> (\<forall>i < length calls. is_auth_call (calls ! i) \<longrightarrow> rs ! i = Inr (PyStr tok))"
proof (induction calls arbitrary: s rs evs s')
  case Nil
  then show ?case by simp
next
  case (Cons c calls)
  obtain r s1 ev1 where c: "run_call c s = (r, s1, ev1)" by (cases "run_call c s")
  obtain rs2 s2 ev2 where rest: "run calls s1 = (rs2, s2, ev2)" by (cases "run calls s1")
  from Cons.prems(2) c rest have eqs: "rs = r # rs2" "s' = s2" "evs = ev1 @ ev2" by auto
  have step: "cached JIRA_TOKEN_CACHE_KEY tok s1
      \<and> GetAuthResponse Jira \<notin> set ev1 \<and> RequestCredential Jira \<notin> set ev1
      \<and> (is_auth_call c \<longrightarrow> r = Inr (PyStr tok))"
  proof (cases c)
    case (AuthCall env)
    with c auth_hit [OF Cons.prems(1), of env] show ?thesis
      using Cons.prems(1) by (simp add: run_call_def)
  next
    case (CloudCall http t)
    with c have g: "get_jira_cloud_id http t s = (r, s1, ev1)" by (simp add: run_call_def)
    from cloud_keeps_token [OF Cons.prems(1) g] cloud_events [OF g] CloudCall show ?thesis
      by (auto simp: is_auth_call_def)
  qed
  from Cons.IH [OF _ rest] step
  have IH: "cached JIRA_TOKEN_CACHE_KEY tok s2
     \<and> GetAuthResponse Jira \<notin> set ev2 \<and> RequestCredential Jira \<notin> set ev2
     \<and> (\<forall>i < length calls. is_auth_call (calls ! i) \<longrightarrow> rs2 ! i = Inr (PyStr tok))" by blast
  have "\<forall>i < length (c # calls). is_auth_call ((c # calls) ! i) \<longrightarrow> (r # rs2) ! i = Inr (PyStr tok)"
  proof (intro allI impI)
    fix i assume "i < length (c # calls)" "is_auth_call ((c # calls) ! i)"
    with step IH show "(r # rs2) ! i = Inr (PyStr tok)" by (cases i) auto
  qed
  with step IH eqs show ?case by simp
qed

lemma run_cloud:
  "cached CLOUD_ID_KEY cid s \<Longrightarrow> run calls s = (rs, s', evs) \<Longrightarrow>
     cached CLOUD_ID_KEY cid s'
     \<and> HttpGet Resources \<notin> set evs
     \<and> (\<forall>i < length calls. \<not> is_auth_call (calls ! i) \<longrightarrow> rs ! i = Inr (PyStr cid))"
proof (induction calls arbitrary: s rs evs s')
  case Nil
  then show ?case by simp
next
  case (Cons c calls)
  obtain r s1 ev1 where c: "run_call c s = (r, s1, ev1)" by (cases "run_call c s")
  obtain rs2 s2 ev2 where rest: "run calls s1 = (rs2, s2, ev2)" by (cases "run calls s1")
  from Cons.prems(2) c rest have eqs: "rs = r # rs2" "s' = s2" "evs = ev1 @ ev2" by auto
  have step: "cached CLOUD_ID_KEY cid s1 \<and> HttpGet Resources \<notin> set ev1
      \<and> (\<not> is_auth_call c \<longrightarrow> r = Inr (PyStr cid))"
  proof (cases c)
    case (AuthCall env)
    with c have g: "get_jira_auth env s = (r, s1, ev1)" by (simp add: run_call_def)
    from auth_keeps_cloud [OF Cons.prems(1) g] auth_events [OF g] AuthCall show ?thesis
      by (auto simp: is_auth_call_def)
  next
    case (CloudCall http t)
    with c cloud_hit [OF Cons.prems(1), of http t] show ?thesis
      using Cons.prems(1) by (simp add: run_call_def)
  qed
  from Cons.IH [OF _ rest] step
  have IH: "cached CLOUD_ID_KEY cid s2 \<and> HttpGet Resources \<notin> set ev2
     \<and> (\<forall>i < length calls. \<not> is_auth_call (calls ! i) \<longrightarrow> rs2 ! i = Inr (PyStr cid))" by blast
  have "\<forall>i < length (c # calls). \<not> is_auth_call ((c # calls) ! i) \<longrightarrow> (r # rs2) ! i = Inr (PyStr cid)"
  proof (intro allI impI)
    fix i assume "i < length (c # calls)" "\<not> is_auth_call ((c # calls) ! i)"
    with step IH show "(r # rs2) ! i = Inr (PyStr cid)" by (cases i) auto
  qed
  with step IH eqs show ?case by simp
qed

lemma cloud_miss:
  "uncached CLOUD_ID_KEY s \<Longrightarrow> no_identifier reply \<Longrightarrow>
     get_jira_cloud_id (Inr reply) t s = (Inr PyNone, s, [HttpGet Resources])"
  by (cases s)
     (auto simp: uncached_def no_identifier_def get_jira_cloud_id_def io_bind_def state_get_def
        io_return_def call_out_def)

lemma cloud_raise:
  "uncached CLOUD_ID_KEY s \<Longrightarrow> get_jira_cloud_id (Inl e) t s = (Inl e, s, [HttpGet Resources])"
  by (cases s)
     (auto simp: uncached_def get_jira_cloud_id_def io_bind_def state_get_def call_out_def)

lemma cloud_asks:
  "uncached CLOUD_ID_KEY s \<Longrightarrow> \<exists>r s1. get_jira_cloud_id http t s = (r, s1, [HttpGet Resources])"
  by (cases s)
     (auto simp: uncached_def get_jira_cloud_id_def io_bind_def state_get_def state_set_def
        io_return_def io_raise_def call_out_def
        split: sum.splits list.splits)

lemma cloud_miss_again:
  assumes "uncached CLOUD_ID_KEY s" and "no_identifier reply"
  shows "\<exists>r s1. run [CloudCall (Inr reply) t, CloudCall http t2] s
                  = ([Inr PyNone, r], s1, [HttpGet Resources, HttpGet Resources])"
proof -
  from cloud_asks [OF assms(1), of http t2] obtain r s1
    where "get_jira_cloud_id http t2 s = (r, s1, [HttpGet Resources])" by blast
  with cloud_miss [OF assms, of t] show ?thesis by (simp add: run_call_def)
qed

text \<open>
  C8 (as amended). Once the state holds a non-empty Jira token, every later call of
  \<open>get_jira_auth\<close> in the session returns it, and the session makes no call of
  \<open>get_auth_response\<close> or \<open>request_credential\<close> for Jira. Once the state holds a non-empty
  cloud identifier, every later call of \<open>get_jira_cloud_id\<close> returns it and the session
  sends no request for the accessible resources. A call of either function that returns
  a non-empty string leaves it stored, and the two are stored under different keys. While
  no identifier is stored, every call of \<open>get_jira_cloud_id\<close> sends the request once; a
  reply with a status other than 200 or with an empty list of resources makes the call
  return \<open>None\<close> and leaves the state as it was, and so does a request that raises (the
  call then raises); the call that follows such a reply therefore sends the request
  again.
\<close>

theorem credential_cache:
  "(cached JIRA_TOKEN_CACHE_KEY tok s \<and> run calls s = (rs, s', evs) \<longrightarrow>
      GetAuthResponse Jira \<notin> set evs \<and> RequestCredential Jira \<notin> set evs
      \<and> (\<forall>i < length calls. is_auth_call (calls ! i) \<longrightarrow> rs ! i = Inr (PyStr tok))
      \<and> cached JIRA_TOKEN_CACHE_KEY tok s')
   \<and> (cached CLOUD_ID_KEY cid s \<and> run calls s = (rs, s', evs) \<longrightarrow>
      HttpGet Resources \<notin> set evs
      \<and> (\<forall>i < length calls. \<not> is_auth_call (calls ! i) \<longrightarrow> rs ! i = Inr (PyStr cid))
      \<and> cached CLOUD_ID_KEY cid s')
   \<and> (get_jira_auth env s = (Inr (PyStr tok), s1, ev) \<and> tok \<noteq> [] \<longrightarrow>
        cached JIRA_TOKEN_CACHE_KEY tok s1)
   \<and> (get_jira_cloud_id http t s = (Inr (PyStr cid), s1, ev) \<and> cid \<noteq> [] \<longrightarrow>
        cached CLOUD_ID_KEY cid s1)
   \<and> JIRA_TOKEN_CACHE_KEY \<noteq> CLOUD_ID_KEY
   \<and> (uncached CLOUD_ID_KEY s \<and> no_identifier reply \<longrightarrow>
        get_jira_cloud_id (Inr reply) t s = (Inr PyNone, s, [HttpGet Resources]))
   \<and> (uncached CLOUD_ID_KEY s \<longrightarrow>
        get_jira_cloud_id (Inl e) t s = (Inl e, s, [HttpGet Resources]))
   \<and> (uncached CLOUD_ID_KEY s \<longrightarrow>
        (\<exists>r s2. get_jira_cloud_id http t s = (r, s2, [HttpGet Resources])))
   \<and> (uncached CLOUD_ID_KEY s \<and> no_identifier reply \<longrightarrow>
        (\<exists>r s2. run [CloudCall (Inr reply) t, CloudCall http t2] s
                  = ([Inr PyNone, r], s2, [HttpGet Resources, HttpGet Resources])))"
  using run_token [of tok s calls rs s' evs] run_cloud [of cid s calls rs s' evs]
    auth_fills [of env s tok s1 ev] cloud_fills [of http t s cid s1 ev] keys_differ
    cloud_miss [of s reply t] cloud_raise [of s e t] cloud_asks [of s http t]
    cloud_miss_again [of s reply t http t2]
  by blast

theorem credential_cache_witness:
  "cached JIRA_TOKEN_CACHE_KEY ''tok'' (Some warm_state)
   \<and> cached CLOUD_ID_KEY ''cloud-1'' (Some warm_state)
   \<and> run [AuthCall \<lparr>auth_response = Inr None, request_credential = Inr ()\<rparr>,
           CloudCall (Inl ''timeout'') (PyStr ''tok'')] (Some warm_state)
       = ([Inr (PyStr ''tok''), Inr (PyStr ''cloud-1'')], Some warm_state, [])
   \<and> get_jira_auth
         \<lparr>auth_response = Inr (Some \<lparr>oauth2 = Some \<lparr>access_token = PyStr ''tok'', refresh_token = PyNone\<rparr>\<rparr>),
          request_credential = Inr ()\<rparr> (Some Map.empty)
       = (Inr (PyStr ''tok''), Some [JIRA_TOKEN_CACHE_KEY \<mapsto> PyStr ''tok''], [GetAuthResponse Jira])
   \<and> cached JIRA_TOKEN_CACHE_KEY ''tok'' (Some [JIRA_TOKEN_CACHE_KEY \<mapsto> PyStr ''tok''])
   \<and> get_jira_cloud_id
         (Inr \<lparr>resources_status = 200, resources_json = Inr [Inr (PyStr ''cloud-1'')]\<rparr>) (PyStr ''tok'')
         (Some Map.empty)
       = (Inr (PyStr ''cloud-1''), Some [CLOUD_ID_KEY \<mapsto> PyStr ''cloud-1''], [HttpGet Resources])
   \<and> cached CLOUD_ID_KEY ''cloud-1'' (Some [CLOUD_ID_KEY \<mapsto> PyStr ''cloud-1''])
   \<and> uncached CLOUD_ID_KEY (Some [CLOUD_ID_KEY \<mapsto> PyStr []])
   \<and> no_identifier \<lparr>resources_status = 200, resources_json = Inr []\<rparr>
   \<and> get_jira_cloud_id (Inr \<lparr>resources_status = 200, resources_json = Inr []\<rparr>) (PyStr ''tok'')
         (Some [CLOUD_ID_KEY \<mapsto> PyStr []])
       = (Inr PyNone, Some [CLOUD_ID_KEY \<mapsto> PyStr []], [HttpGet Resources])
   \<and> (\<exists>r s2. run [CloudCall (Inr \<lparr>resources_status = 200, resources_json = Inr []\<rparr>) (PyStr ''tok''),
                      CloudCall (Inl ''timeout'') (PyStr ''tok'')] (Some [CLOUD_ID_KEY \<mapsto> PyStr []])
                 = ([Inr PyNone, r], s2, [HttpGet Resources, HttpGet Resources]))"
proof -
  let ?calls = "[AuthCall \<lparr>auth_response = Inr None, request_credential = Inr ()\<rparr>,
           CloudCall (Inl ''timeout'') (PyStr ''tok'')]"
  let ?env = "\<lparr>auth_response = Inr (Some \<lparr>oauth2 = Some \<lparr>access_token = PyStr ''tok'', refresh_token = PyNone\<rparr>\<rparr>),
          request_credential = Inr ()\<rparr>"
  let ?http = "Inr \<lparr>resources_status = 200, resources_json = Inr [Inr (PyStr ''cloud-1'')]\<rparr>"
  have a: "cached JIRA_TOKEN_CACHE_KEY ''tok'' (Some warm_state)"
    by (simp add: cached_def warm_state_def keys_differ)
  have b: "cached CLOUD_ID_KEY ''cloud-1'' (Some warm_state)"
    by (simp add: cached_def warm_state_def)
  have c: "run ?calls (Some warm_state)
       = ([Inr (PyStr ''tok''), Inr (PyStr ''cloud-1'')], Some warm_state, [])"
    by (simp add: run_call_def get_jira_auth_def get_jira_cloud_id_def io_bind_def state_get_def
        io_return_def truthy_val_def warm_state_def JIRA_TOKEN_CACHE_KEY_def CLOUD_ID_KEY_def)
  have d: "get_jira_auth ?env (Some Map.empty)
       = (Inr (PyStr ''tok''), Some [JIRA_TOKEN_CACHE_KEY \<mapsto> PyStr ''tok''], [GetAuthResponse Jira])"
    by (simp add: get_jira_auth_def io_bind_def state_get_def state_set_def io_return_def
        call_out_def truthy_val_def)
  have e: "get_jira_cloud_id ?http (PyStr ''tok'') (Some Map.empty)
       = (Inr (PyStr ''cloud-1''), Some [CLOUD_ID_KEY \<mapsto> PyStr ''cloud-1''], [HttpGet Resources])"
    by (simp add: get_jira_cloud_id_def io_bind_def state_get_def state_set_def io_return_def
        call_out_def truthy_val_def)
  from credential_cache
    [of "''tok''" "Some Map.empty" ?calls "[]" "Some Map.empty" "[]" "''cloud-1''" ?env
        "Some [JIRA_TOKEN_CACHE_KEY \<mapsto> PyStr ''tok'']" "[GetAuthResponse Jira]"] d
  have f: "cached JIRA_TOKEN_CACHE_KEY ''tok'' (Some [JIRA_TOKEN_CACHE_KEY \<mapsto> PyStr ''tok''])"
    by simp
  from credential_cache
    [of "''tok''" "Some Map.empty" ?calls "[]" "Some Map.empty" "[]" "''cloud-1''" ?env
        "Some [CLOUD_ID_KEY \<mapsto> PyStr ''cloud-1'']" "[HttpGet Resources]" ?http "PyStr ''tok''"] e
  have g: "cached CLOUD_ID_KEY ''cloud-1'' (Some [CLOUD_ID_KEY \<mapsto> PyStr ''cloud-1''])"
    by simp
  have h: "uncached CLOUD_ID_KEY (Some [CLOUD_ID_KEY \<mapsto> PyStr []])"
    by (simp add: uncached_def truthy_val_def)
  have i: "no_identifier \<lparr>resources_status = 200, resources_json = Inr []\<rparr>"
    by (simp add: no_identifier_def)
  note t = credential_cache
    [where s = "Some [CLOUD_ID_KEY \<mapsto> PyStr []]"
       and reply = "\<lparr>resources_status = 200, resources_json = Inr []\<rparr>"
       and t = "PyStr ''tok''" and http = "Inl ''timeout''" and ?t2.0 = "PyStr ''tok''"]
  from t h i have j: "get_jira_cloud_id (Inr \<lparr>resources_status = 200, resources_json = Inr []\<rparr>) (PyStr ''tok'')
         (Some [CLOUD_ID_KEY \<mapsto> PyStr []])
       = (Inr PyNone, Some [CLOUD_ID_KEY \<mapsto> PyStr []], [HttpGet Resources])"
    by blast
  from t h i have k: "\<exists>r s2. run [CloudCall (Inr \<lparr>resources_status = 200, resources_json = Inr []\<rparr>) (PyStr ''tok''),
                      CloudCall (Inl ''timeout'') (PyStr ''tok'')] (Some [CLOUD_ID_KEY \<mapsto> PyStr []])
                 = ([Inr PyNone, r], s2, [HttpGet Resources, HttpGet Resources])"
    by blast
  from a b c d e f g h i j k show ?thesis by blast
qed

text \<open>
  C8 as stated has the cloud identifier fetched from the provider at most once in a
  session. A failed fetch stores nothing: in the session below the first request is
  answered with status 500, and the second call sends the request again.
\<close>

theorem cloud_id_refetch_counterexample:
  "run [CloudCall (Inr \<lparr>resources_status = 500, resources_json = Inr []\<rparr>) (PyStr ''tok''),
        CloudCall (Inr \<lparr>resources_status = 200, resources_json = Inr [Inr (PyStr ''cloud-1'')]\<rparr>) (PyStr ''tok'')]
       (Some Map.empty)
   = ([Inr PyNone, Inr (PyStr ''cloud-1'')], Some [CLOUD_ID_KEY \<mapsto> PyStr ''cloud-1''],
      [HttpGet Resources, HttpGet Resources])"
  by (simp add: run_call_def get_jira_cloud_id_def io_bind_def state_get_def state_set_def
        io_return_def call_out_def truthy_val_def)

section \<open>The results of the operations\<close>


lemma returns_raise: "returns (io_raise e) P"
  by (simp add: returns_def io_raise_def)












lemma no_context_eq: "no_context attr = no_attribute ''NoneType'' attr"
  by (simp add: no_context_def no_attribute_def)



































end
